theory Spec2Isabelle
  imports Main
begin

section \<open>Strings\<close>

text \<open>
  A Go string is a sequence of bytes and \<open>len\<close> counts bytes, so a string is a
  \<^typ>\<open>string\<close> (a list of 8-bit characters); text is UTF-8.
\<close>

text \<open>\<open>strings.HasPrefix\<close>, \<open>strings.HasSuffix\<close>.\<close>

fun HasPrefix :: "string \<Rightarrow> string \<Rightarrow> bool" where
  "HasPrefix s [] = True"
| "HasPrefix [] (p # ps) = False"
| "HasPrefix (c # cs) (p # ps) = (c = p \<and> HasPrefix cs ps)"

definition HasSuffix :: "string \<Rightarrow> string \<Rightarrow> bool" where
  "HasSuffix s suffix = HasPrefix (rev s) (rev suffix)"

text \<open>
  \<open>unicode.IsSpace\<close> holds of 25 characters: U+0009 to U+000D, U+0020, U+0085,
  U+00A0, U+1680, U+2000 to U+200A, U+2028, U+2029, U+202F, U+205F and U+3000.
  \<open>whiteSpace\<close> lists their UTF-8 encodings. None is a prefix or a suffix of another,
  and none starts with a continuation byte (\<open>0x80\<close> to \<open>0xBF\<close>).
\<close>

definition whiteSpace :: "string list" where
  "whiteSpace =
     [[CHR 0x09], [CHR 0x0A], [CHR 0x0B], [CHR 0x0C], [CHR 0x0D], [CHR 0x20],
      [CHR 0xC2, CHR 0x85], [CHR 0xC2, CHR 0xA0],
      [CHR 0xE1, CHR 0x9A, CHR 0x80],
      [CHR 0xE2, CHR 0x80, CHR 0x80], [CHR 0xE2, CHR 0x80, CHR 0x81], [CHR 0xE2, CHR 0x80, CHR 0x82],
      [CHR 0xE2, CHR 0x80, CHR 0x83], [CHR 0xE2, CHR 0x80, CHR 0x84], [CHR 0xE2, CHR 0x80, CHR 0x85],
      [CHR 0xE2, CHR 0x80, CHR 0x86], [CHR 0xE2, CHR 0x80, CHR 0x87], [CHR 0xE2, CHR 0x80, CHR 0x88],
      [CHR 0xE2, CHR 0x80, CHR 0x89], [CHR 0xE2, CHR 0x80, CHR 0x8A],
      [CHR 0xE2, CHR 0x80, CHR 0xA8], [CHR 0xE2, CHR 0x80, CHR 0xA9], [CHR 0xE2, CHR 0x80, CHR 0xAF],
      [CHR 0xE2, CHR 0x81, CHR 0x9F],
      [CHR 0xE3, CHR 0x80, CHR 0x80]]"

text \<open>The width in bytes of the white-space character that starts \<open>s\<close>, and of the
  one that ends it; \<open>0\<close> when there is none. Go decodes a rune from the start of
  the text or back from its end, and takes an ill-formed byte for U+FFFD, of width
  one, which is no white space.\<close>

definition spaceWidth :: "string \<Rightarrow> nat" where
  "spaceWidth s = (case find (HasPrefix s) whiteSpace of None \<Rightarrow> 0 | Some e \<Rightarrow> length e)"

definition spaceWidthEnd :: "string \<Rightarrow> nat" where
  "spaceWidthEnd s = (case find (HasSuffix s) whiteSpace of None \<Rightarrow> 0 | Some e \<Rightarrow> length e)"

lemma HasPrefix_length: "HasPrefix s p \<Longrightarrow> length p \<le> length s"
  by (induction s p rule: HasPrefix.induct) simp_all

lemma spaceWidth_le: "spaceWidth s \<le> length s"
proof (cases "find (HasPrefix s) whiteSpace")
  case None
  then show ?thesis by (simp add: spaceWidth_def)
next
  case (Some e)
  then have "HasPrefix s e" by (auto simp: find_Some_iff)
  from HasPrefix_length [OF this] Some show ?thesis by (simp add: spaceWidth_def)
qed

lemma spaceWidthEnd_le: "spaceWidthEnd s \<le> length s"
proof (cases "find (HasSuffix s) whiteSpace")
  case None
  then show ?thesis by (simp add: spaceWidthEnd_def)
next
  case (Some e)
  then have "HasPrefix (rev s) (rev e)" by (auto simp: find_Some_iff HasSuffix_def)
  from HasPrefix_length [OF this] Some show ?thesis by (simp add: spaceWidthEnd_def)
qed

lemma spaceWidth_Nil [simp]: "spaceWidth [] = 0"
  using spaceWidth_le [of "[]"] by simp

lemma spaceWidthEnd_Nil [simp]: "spaceWidthEnd [] = 0"
  using spaceWidthEnd_le [of "[]"] by simp

text \<open>\<open>strings.TrimSpace\<close>: \<open>TrimLeftFunc\<close> and then \<open>TrimRightFunc\<close> with
  \<open>unicode.IsSpace\<close>.\<close>

function trimLeft :: "string \<Rightarrow> string" where
  "trimLeft s = (if spaceWidth s = 0 then s else trimLeft (drop (spaceWidth s) s))"
  by pat_completeness auto
termination
proof (relation "measure length")
  show "wf (measure length)" by simp
next
  fix s :: string
  assume w: "spaceWidth s \<noteq> 0"
  then have "s \<noteq> []" by auto
  with w show "(drop (spaceWidth s) s, s) \<in> measure length" by simp
qed

function trimRight :: "string \<Rightarrow> string" where
  "trimRight s = (if spaceWidthEnd s = 0 then s else trimRight (take (length s - spaceWidthEnd s) s))"
  by pat_completeness auto
termination
proof (relation "measure length")
  show "wf (measure length)" by simp
next
  fix s :: string
  assume w: "spaceWidthEnd s \<noteq> 0"
  then have "s \<noteq> []" by auto
  with w show "(take (length s - spaceWidthEnd s) s, s) \<in> measure length" by simp
qed

declare trimLeft.simps [simp del] trimRight.simps [simp del]

definition TrimSpace :: "string \<Rightarrow> string" where
  "TrimSpace s = trimRight (trimLeft s)"

text \<open>\<open>strings.LastIndex(s, " ")\<close> for a one-byte separator: the position of its
  last occurrence, \<open>None\<close> for Go's \<open>-1\<close>.\<close>

fun LastIndexByte :: "char \<Rightarrow> string \<Rightarrow> nat option" where
  "LastIndexByte c [] = None"
| "LastIndexByte c (x # xs) =
     (case LastIndexByte c xs of
        Some i \<Rightarrow> Some (Suc i)
      | None \<Rightarrow> if x = c then Some 0 else None)"

text \<open>\<open>strings.Replace(t, "\r\n", "\n", -1)\<close>.\<close>

fun ReplaceCRLF :: "string \<Rightarrow> string" where
  "ReplaceCRLF (a # b # cs) =
     (if a = CHR 0x0D \<and> b = CHR 0x0A then CHR 0x0A # ReplaceCRLF cs
      else a # ReplaceCRLF (b # cs))"
| "ReplaceCRLF cs = cs"

text \<open>\<open>strings.Split(t, "\n")\<close>: the pieces between newlines; always at least one
  piece (the last alternative of the case is never reached).\<close>

fun SplitNL :: "string \<Rightarrow> string list" where
  "SplitNL [] = [[]]"
| "SplitNL (c # cs) =
     (if c = CHR 0x0A then [] # SplitNL cs
      else (case SplitNL cs of l # ls \<Rightarrow> (c # l) # ls | [] \<Rightarrow> [[c]]))"

section \<open>Word wrapping (show.go, wrap)\<close>

text \<open>The index after which the inner loop of \<open>wrap\<close> cuts a string longer than
  \<open>max = 80\<close>: one past the last space of its first 80 bytes, or 80.\<close>

definition wrapCut :: "string \<Rightarrow> nat" where
  "wrapCut s = (case LastIndexByte (CHR '' '') (take 80 s) of None \<Rightarrow> 80 - 1 | Some i \<Rightarrow> i) + 1"

lemma wrapCut_pos: "0 < wrapCut s"
  by (simp add: wrapCut_def)

lemma wrapCut_decreases: "80 < length s \<Longrightarrow> length s - wrapCut s < length s"
  using wrapCut_pos [of s] by arith

text \<open>The inner loop \<open>for len(s) > max\<close> together with the final \<open>out += s\<close>:
  what one input line appends to \<open>out\<close>.\<close>

function wrapLine :: "string \<Rightarrow> string \<Rightarrow> string" where
  "wrapLine prefix s =
     (if 80 < length s
      then take (wrapCut s) s @ [CHR 0x0A] @ prefix @ wrapLine prefix (drop (wrapCut s) s)
      else s)"
  by pat_completeness auto
termination
  by (relation "measure (\<lambda>(p, s). length s)") (simp_all add: wrapCut_decreases)

declare wrapLine.simps [simp del]

text \<open>The outer loop over the lines: every line but the first is preceded by a
  newline and the prefix.\<close>

fun wrapLines :: "string \<Rightarrow> bool \<Rightarrow> string list \<Rightarrow> string" where
  "wrapLines prefix first [] = []"
| "wrapLines prefix first (line # lines) =
     (if first then [] else [CHR 0x0A] @ prefix) @ wrapLine prefix line @ wrapLines prefix False lines"

definition wrap :: "string \<Rightarrow> string \<Rightarrow> string" where
  "wrap t prefix = wrapLines prefix True (SplitNL (ReplaceCRLF t))"

text \<open>The pieces \<open>ps\<close> laid out the way \<open>wrap\<close> lays out its output: one piece
  per output line, every line but the first preceded by the prefix.\<close>

fun joinLines :: "string \<Rightarrow> string list \<Rightarrow> string" where
  "joinLines prefix [] = []"
| "joinLines prefix [p] = p"
| "joinLines prefix (p # q # ps) = p @ [CHR 0x0A] @ prefix @ joinLines prefix (q # ps)"

section \<open>Properties of word wrapping\<close>

lemma joinLines_append:
  "ps \<noteq> [] \<Longrightarrow> qs \<noteq> [] \<Longrightarrow>
   joinLines prefix (ps @ qs) = joinLines prefix ps @ [CHR 0x0A] @ prefix @ joinLines prefix qs"
  by (induction prefix ps rule: joinLines.induct) (auto simp: neq_Nil_conv)

lemma joinLines_Cons:
  "ps \<noteq> [] \<Longrightarrow> joinLines prefix (p # ps) = p @ [CHR 0x0A] @ prefix @ joinLines prefix ps"
  by (cases ps) simp_all

lemma LastIndexByte_None: "LastIndexByte c xs = None \<longleftrightarrow> c \<notin> set xs"
  by (induction xs) (auto split: option.splits)

lemma LastIndexByte_Some:
  "LastIndexByte c xs = Some i \<Longrightarrow> i < length xs \<and> xs ! i = c \<and> (\<forall>j. i < j \<and> j < length xs \<longrightarrow> xs ! j \<noteq> c)"
proof (induction xs arbitrary: i)
  case Nil
  then show ?case by simp
next
  case (Cons x xs)
  show ?case
  proof (cases "LastIndexByte c xs")
    case None
    then have "c \<notin> set xs" by (simp add: LastIndexByte_None)
    with Cons.prems None show ?thesis
      by (auto split: if_splits simp: nth_Cons' )
  next
    case (Some k)
    with Cons.prems have i: "i = Suc k" by simp
    from Cons.IH [OF Some] show ?thesis unfolding i
      by (auto simp: nth_Cons' less_Suc_eq_0_disj)
  qed
qed

lemma wrapCut_le: "wrapCut s \<le> 80"
proof (cases "LastIndexByte (CHR '' '') (take 80 s)")
  case None
  then show ?thesis by (simp add: wrapCut_def)
next
  case (Some i)
  from LastIndexByte_Some [OF Some] have "i < 80" by simp
  with Some show ?thesis by (simp add: wrapCut_def)
qed

lemma SplitNL_nonempty: "SplitNL s \<noteq> []"
  by (induction s) (auto split: list.splits)

text \<open>The pieces into which the inner loop cuts one line.\<close>

function pieces :: "string \<Rightarrow> string list" where
  "pieces s = (if 80 < length s then take (wrapCut s) s # pieces (drop (wrapCut s) s) else [s])"
  by pat_completeness auto
termination
  by (relation "measure length") (simp_all add: wrapCut_decreases)

declare pieces.simps [simp del]

text \<open>\<open>utf8.RuneCountInString\<close> on well-formed UTF-8: the bytes that are not
  continuation bytes.\<close>

definition RuneCount :: "string \<Rightarrow> nat" where
  "RuneCount s = length (filter (\<lambda>c. \<not> (0x80 \<le> (of_char c :: nat) \<and> (of_char c :: nat) < 0xC0)) s)"

lemma pieces_nonempty: "pieces s \<noteq> []"
  by (subst pieces.simps) simp

lemma pieces_short: "length s \<le> 80 \<Longrightarrow> pieces s = [s]"
  by (subst pieces.simps) simp

lemma pieces_long: "80 < length s \<Longrightarrow> pieces s = take (wrapCut s) s # pieces (drop (wrapCut s) s)"
  by (subst pieces.simps) simp

lemma concat_pieces: "concat (pieces s) = s"
proof (induction s rule: pieces.induct)
  case (1 s)
  show ?case
  proof (cases "80 < length s")
    case True
    with 1 show ?thesis by (simp add: pieces_long)
  next
    case False
    then show ?thesis by (simp add: pieces_short)
  qed
qed

lemma wrapLine_pieces: "wrapLine prefix s = joinLines prefix (pieces s)"
proof (induction s rule: pieces.induct)
  case (1 s)
  show ?case
  proof (cases "80 < length s")
    case True
    have "wrapLine prefix s = take (wrapCut s) s @ [CHR 0x0A] @ prefix @ wrapLine prefix (drop (wrapCut s) s)"
      using True by (subst wrapLine.simps) simp
    with 1 [OF True] True show ?thesis
      by (simp add: pieces_long joinLines_Cons pieces_nonempty)
  next
    case False
    then have "wrapLine prefix s = s" by (subst wrapLine.simps) simp
    with False show ?thesis by (simp add: pieces_short)
  qed
qed

lemma last_pieces: "length (last (pieces s)) \<le> 80"
proof (induction s rule: pieces.induct)
  case (1 s)
  show ?case
  proof (cases "80 < length s")
    case True
    with 1 show ?thesis by (simp add: pieces_long pieces_nonempty)
  next
    case False
    then show ?thesis by (simp add: pieces_short)
  qed
qed

text \<open>Where a line longer than 80 bytes is cut.\<close>

lemma wrapCut_place:
  assumes long: "80 < length s"
  shows "if CHR '' '' \<in> set (take 80 s)
         then s ! (wrapCut s - 1) = CHR '' '' \<and> (\<forall>m. wrapCut s \<le> m \<and> m < 80 \<longrightarrow> s ! m \<noteq> CHR '' '')
         else wrapCut s = 80"
proof (cases "LastIndexByte (CHR '' '') (take 80 s)")
  case None
  then have "CHR '' '' \<notin> set (take 80 s)" by (simp add: LastIndexByte_None)
  with None show ?thesis by (simp add: wrapCut_def)
next
  case (Some i)
  from LastIndexByte_Some [OF Some] long
  have i: "i < 80" "s ! i = CHR '' ''" "\<forall>j. i < j \<and> j < 80 \<longrightarrow> s ! j \<noteq> CHR '' ''"
    by auto
  have "CHR '' '' \<in> set (take 80 s)"
    using Some LastIndexByte_None [of "CHR '' ''" "take 80 s"] by simp
  with i Some show ?thesis by (auto simp: wrapCut_def Suc_le_eq)
qed

lemma pieces_cut:
  "Suc j < length (pieces s) \<Longrightarrow>
   80 < length (concat (drop j (pieces s)))
   \<and> pieces s ! j = take (wrapCut (concat (drop j (pieces s)))) (concat (drop j (pieces s)))"
proof (induction s arbitrary: j rule: pieces.induct)
  case (1 s)
  have long: "80 < length s"
  proof (rule ccontr)
    assume "\<not> 80 < length s"
    then have "pieces s = [s]" by (simp add: pieces_short)
    with "1.prems" show False by simp
  qed
  note p = pieces_long [OF long]
  show ?case
  proof (cases j)
    case 0
    have "concat (drop 0 (pieces s)) = s" by (simp add: concat_pieces)
    with 0 long p show ?thesis by simp
  next
    case (Suc j')
    with "1.prems" p have "Suc j' < length (pieces (drop (wrapCut s) s))" by simp
    from "1.IH" [OF long this] show ?thesis by (simp add: Suc p)
  qed
qed

lemma wrapLines_pieces:
  "ls \<noteq> [] \<Longrightarrow>
   wrapLines prefix first ls
     = (if first then [] else [CHR 0x0A] @ prefix) @ joinLines prefix (concat (map pieces ls))"
proof (induction ls arbitrary: first)
  case Nil
  then show ?case by simp
next
  case (Cons l ls)
  show ?case
  proof (cases "ls = []")
    case True
    then show ?thesis by (simp add: wrapLine_pieces)
  next
    case False
    have ne: "concat (map pieces ls) \<noteq> []"
      using False pieces_nonempty by (cases ls) auto
    from Cons.IH [OF False, of False] show ?thesis
      by (simp add: wrapLine_pieces joinLines_append [OF pieces_nonempty ne])
  qed
qed

text \<open>
  Claim C10, as amended: lengths are in bytes, as Go's \<open>len\<close>. The input, with
  \<open>\r\n\<close> replaced by \<open>\n\<close>, is split at its newlines into lines. The output of
  \<open>wrap\<close> is made of pieces, one per output line, every output line but the first
  carrying the prefix in front of its piece. Every input line gives at least one
  piece, in order, and its pieces together are the line. The last piece of a line
  has at most 80 bytes, and a line of at most 80 bytes is its only piece. Every
  other piece is cut from text longer than 80 bytes, the rest of the line from that
  piece on: it ends with the last space among the first 80 bytes of that text, or
  has exactly 80 bytes when these hold no space.
\<close>

theorem wrap_line_limit:
  "\<exists>pss. length pss = length (SplitNL (ReplaceCRLF t))
     \<and> wrap t prefix = joinLines prefix (concat pss)
     \<and> (\<forall>i<length pss.
          pss ! i \<noteq> [] \<and> concat (pss ! i) = SplitNL (ReplaceCRLF t) ! i
          \<and> length (last (pss ! i)) \<le> 80
          \<and> (length (SplitNL (ReplaceCRLF t) ! i) \<le> 80 \<longrightarrow> pss ! i = [SplitNL (ReplaceCRLF t) ! i])
          \<and> (\<forall>j. Suc j < length (pss ! i) \<longrightarrow>
               80 < length (concat (drop j (pss ! i)))
               \<and> 0 < length (pss ! i ! j) \<and> length (pss ! i ! j) \<le> 80
               \<and> (if CHR '' '' \<in> set (take 80 (concat (drop j (pss ! i))))
                   then last (pss ! i ! j) = CHR '' ''
                        \<and> (\<forall>m. length (pss ! i ! j) \<le> m \<and> m < 80 \<longrightarrow> concat (drop j (pss ! i)) ! m \<noteq> CHR '' '')
                   else length (pss ! i ! j) = 80)))"
proof -
  define ls where "ls = SplitNL (ReplaceCRLF t)"
  define pss where "pss = map pieces ls"
  have ne: "ls \<noteq> []" unfolding ls_def by (rule SplitNL_nonempty)
  have w: "wrap t prefix = joinLines prefix (concat pss)"
    unfolding wrap_def pss_def ls_def [symmetric] using wrapLines_pieces [OF ne, of prefix True] by simp
  have each: "pss ! i \<noteq> [] \<and> concat (pss ! i) = ls ! i
          \<and> length (last (pss ! i)) \<le> 80
          \<and> (length (ls ! i) \<le> 80 \<longrightarrow> pss ! i = [ls ! i])
          \<and> (\<forall>j. Suc j < length (pss ! i) \<longrightarrow>
               80 < length (concat (drop j (pss ! i)))
               \<and> 0 < length (pss ! i ! j) \<and> length (pss ! i ! j) \<le> 80
               \<and> (if CHR '' '' \<in> set (take 80 (concat (drop j (pss ! i))))
                   then last (pss ! i ! j) = CHR '' ''
                        \<and> (\<forall>m. length (pss ! i ! j) \<le> m \<and> m < 80 \<longrightarrow> concat (drop j (pss ! i)) ! m \<noteq> CHR '' '')
                   else length (pss ! i ! j) = 80))"
    if i: "i < length pss" for i
  proof -
    have p: "pss ! i = pieces (ls ! i)" using i by (simp add: pss_def)
    have cut: "80 < length (concat (drop j (pss ! i)))
               \<and> 0 < length (pss ! i ! j) \<and> length (pss ! i ! j) \<le> 80
               \<and> (if CHR '' '' \<in> set (take 80 (concat (drop j (pss ! i))))
                   then last (pss ! i ! j) = CHR '' ''
                        \<and> (\<forall>m. length (pss ! i ! j) \<le> m \<and> m < 80 \<longrightarrow> concat (drop j (pss ! i)) ! m \<noteq> CHR '' '')
                   else length (pss ! i ! j) = 80)"
      if j: "Suc j < length (pss ! i)" for j
    proof -
      define rest where "rest = concat (drop j (pss ! i))"
      from pieces_cut [of j "ls ! i"] j
      have long: "80 < length rest" and piece: "pss ! i ! j = take (wrapCut rest) rest"
        unfolding p rest_def by simp_all
      have k: "0 < wrapCut rest" "wrapCut rest \<le> 80"
        by (rule wrapCut_pos, rule wrapCut_le)
      have len: "length (pss ! i ! j) = wrapCut rest" unfolding piece using k long by simp
      have "take (wrapCut rest) rest \<noteq> []" using k long by auto
      then have "last (take (wrapCut rest) rest) = take (wrapCut rest) rest ! (wrapCut rest - 1)"
        using k long by (simp add: last_conv_nth min_def)
      then have lastc: "last (pss ! i ! j) = rest ! (wrapCut rest - 1)"
        unfolding piece using k by simp
      from wrapCut_place [OF long] show ?thesis
        unfolding rest_def [symmetric] len lastc using long k by (auto split: if_splits)
    qed
    show ?thesis
      unfolding p using cut [unfolded p]
      by (simp add: pieces_nonempty concat_pieces last_pieces pieces_short)
  qed
  have "length pss = length ls" by (simp add: pss_def)
  with w each show ?thesis unfolding ls_def [symmetric] by blast
qed

text \<open>A line and a longer one: the first is kept, the second is cut after 80
  bytes.\<close>

theorem wrap_line_limit_witness:
  "wrap (''ab cd'' @ [CHR 0x0A] @ replicate 81 (CHR ''a'')) ''x''
     = ''ab cd'' @ [CHR 0x0A] @ ''x'' @ replicate 80 (CHR ''a'') @ [CHR 0x0A] @ ''x'' @ ''a''
   \<and> (\<exists>pss. length pss = length (SplitNL (ReplaceCRLF (''ab cd'' @ [CHR 0x0A] @ replicate 81 (CHR ''a''))))
        \<and> wrap (''ab cd'' @ [CHR 0x0A] @ replicate 81 (CHR ''a'')) ''x'' = joinLines ''x'' (concat pss)
        \<and> (\<forall>i<length pss. pss ! i \<noteq> []
              \<and> concat (pss ! i) = SplitNL (ReplaceCRLF (''ab cd'' @ [CHR 0x0A] @ replicate 81 (CHR ''a''))) ! i
              \<and> length (last (pss ! i)) \<le> 80))"
proof -
  let ?t = "''ab cd'' @ [CHR 0x0A] @ replicate 81 (CHR ''a'')"
  have v: "wrap ?t ''x'' = ''ab cd'' @ [CHR 0x0A] @ ''x'' @ replicate 80 (CHR ''a'') @ [CHR 0x0A] @ ''x'' @ ''a''"
    by code_simp
  from wrap_line_limit [of ?t "''x''"] obtain pss where
    "length pss = length (SplitNL (ReplaceCRLF ?t))" "wrap ?t ''x'' = joinLines ''x'' (concat pss)"
    "\<forall>i<length pss. pss ! i \<noteq> [] \<and> concat (pss ! i) = SplitNL (ReplaceCRLF ?t) ! i
        \<and> length (last (pss ! i)) \<le> 80"
    by blast
  then have "\<exists>pss. length pss = length (SplitNL (ReplaceCRLF ?t))
        \<and> wrap ?t ''x'' = joinLines ''x'' (concat pss)
        \<and> (\<forall>i<length pss. pss ! i \<noteq> [] \<and> concat (pss ! i) = SplitNL (ReplaceCRLF ?t) ! i
              \<and> length (last (pss ! i)) \<le> 80)"
    by blast
  with v show ?thesis by (rule conjI)
qed

text \<open>A line of 46 characters, the letter \<open>a\<close> and 45 times U+00E9, has 91 bytes: it
  is cut after 80 bytes, in the middle of a character.\<close>

theorem wrap_characters_counterexample:
  "RuneCount (CHR ''a'' # concat (replicate 45 [CHR 0xC3, CHR 0xA9])) = 46
   \<and> wrap (CHR ''a'' # concat (replicate 45 [CHR 0xC3, CHR 0xA9])) []
       = CHR ''a'' # concat (replicate 39 [CHR 0xC3, CHR 0xA9]) @ [CHR 0xC3, CHR 0x0A, CHR 0xA9]
         @ concat (replicate 5 [CHR 0xC3, CHR 0xA9])"
  by code_simp


section \<open>The unified diff (show.go, formatUnifiedDiff)\<close>

text \<open>\<open>gerrit.DiffContent\<close>: one chunk of a file diff, either common lines (\<open>AB\<close>) or
  a replacement (\<open>A\<close> removed, \<open>B\<close> added). The renderer reads no other field.\<close>

record DiffContent =
  A :: "string list"
  B :: "string list"
  AB :: "string list"

record Line =
  Prefix :: string
  Text :: string
  Old :: int
  New :: int

abbreviation maxContext :: nat where
  "maxContext \<equiv> 3"

definition isDecl :: "string \<Rightarrow> bool" where
  "isDecl x = (case x of [] \<Rightarrow> False
     | c # _ \<Rightarrow> c \<noteq> CHR 0x0A \<and> c \<noteq> CHR '' '' \<and> c \<noteq> CHR 0x09 \<and> c \<noteq> CHR 0x0D)"

text \<open>The variables of the loop body that formats one run into a hunk.\<close>

record fmtState =
  oldStart :: int
  newStart :: int
  startDecl :: string
  oldLine :: int
  newLine :: int
  decl :: string
  chunk :: "Line list"

text \<open>The scan of the clipped lines \<open>c.AB[:skip]\<close> of a leading common chunk.\<close>

fun scanSkipped :: "string list \<Rightarrow> fmtState \<Rightarrow> fmtState" where
  "scanSkipped [] st = st"
| "scanSkipped (line # lines) st =
     scanSkipped lines
       (if isDecl line then st\<lparr>decl := '' '' @ line, startDecl := '' '' @ line\<rparr> else st)"

text \<open>The three loops that append lines to the chunk: common, removed, added.\<close>

fun emitAB :: "string list \<Rightarrow> fmtState \<Rightarrow> fmtState" where
  "emitAB [] st = st"
| "emitAB (line # lines) st =
     emitAB lines
       (st\<lparr>chunk := chunk st @ [\<lparr>Prefix = '' '', Text = line, Old = oldLine st, New = newLine st\<rparr>],
           oldLine := oldLine st + 1,
           newLine := newLine st + 1,
           decl := (if isDecl line then '' '' @ line else decl st)\<rparr>)"

fun emitA :: "string list \<Rightarrow> fmtState \<Rightarrow> fmtState" where
  "emitA [] st = st"
| "emitA (line # lines) st =
     emitA lines
       (st\<lparr>chunk := chunk st @ [\<lparr>Prefix = ''-'', Text = line, Old = oldLine st, New = 0\<rparr>],
           oldLine := oldLine st + 1\<rparr>)"

fun emitB :: "string list \<Rightarrow> fmtState \<Rightarrow> fmtState" where
  "emitB [] st = st"
| "emitB (line # lines) st =
     emitB lines
       (st\<lparr>chunk := chunk st @ [\<lparr>Prefix = ''+'', Text = line, Old = 0, New = newLine st\<rparr>],
           newLine := newLine st + 1,
           decl := (if isDecl line then '' '' @ line else decl st)\<rparr>)"

text \<open>The body of \<open>for i, c := range run\<close>; \<open>n\<close> is \<open>len(run)\<close>.\<close>

definition fmtChunk :: "nat \<Rightarrow> nat \<Rightarrow> DiffContent \<Rightarrow> fmtState \<Rightarrow> fmtState" where
  "fmtChunk i n c st =
     (if AB c \<noteq> [] then
        (if i = 0 \<and> maxContext < length (AB c) then
           let skip = length (AB c) - maxContext;
               st1 = scanSkipped (take skip (AB c)) st;
               st2 = st1\<lparr>oldStart := oldStart st1 + int skip,
                         newStart := newStart st1 + int skip,
                         oldLine := oldLine st1 + int skip,
                         newLine := newLine st1 + int skip\<rparr>
           in emitAB (drop skip (AB c)) st2
         else if Suc i = n \<and> maxContext < length (AB c) then
           emitAB (take maxContext (AB c)) st
         else emitAB (AB c) st)
      else emitB (B c) (emitA (A c) st))"

fun fmtRun :: "nat \<Rightarrow> nat \<Rightarrow> DiffContent list \<Rightarrow> fmtState \<Rightarrow> fmtState" where
  "fmtRun i n [] st = st"
| "fmtRun i n (c # cs) st = fmtRun (Suc i) n cs (fmtChunk i n c st)"

text \<open>The index \<open>i\<close> at which a run stops: past a leading common chunk, then past
  every chunk whose common part has at most \<open>2*maxContext\<close> lines.\<close>

definition runEnd :: "DiffContent list \<Rightarrow> nat" where
  "runEnd content =
     (let i = (if AB (hd content) \<noteq> [] then 1 else 0)
      in i + length (takeWhile (\<lambda>c. length (AB c) \<le> 2 * maxContext) (drop i content)))"

definition takeRun :: "DiffContent list \<Rightarrow> DiffContent list" where
  "takeRun content =
     (let i = runEnd content
      in if i < length content \<and> 2 * maxContext < length (AB (content ! i))
         then take (i + 1) content else take i content)"

text \<open>One hunk: the numbers and the declaration of its header line, and its lines.\<close>

record Hunk =
  hOldStart :: int
  hOldLen :: int
  hNewStart :: int
  hNewLen :: int
  hDecl :: string
  hLines :: "Line list"

definition truncDecl :: "string \<Rightarrow> string" where
  "truncDecl d = (if 55 < length d then take 50 d @ ''...'' else d)"

definition startState :: "int \<Rightarrow> int \<Rightarrow> string \<Rightarrow> fmtState" where
  "startState ol nl d =
     \<lparr>oldStart = ol, newStart = nl, startDecl = d, oldLine = ol, newLine = nl, decl = d, chunk = []\<rparr>"

definition hunkOf :: "fmtState \<Rightarrow> Hunk" where
  "hunkOf st =
     \<lparr>hOldStart = oldStart st, hOldLen = oldLine st - oldStart st,
      hNewStart = newStart st, hNewLen = newLine st - newStart st,
      hDecl = truncDecl (startDecl st), hLines = chunk st\<rparr>"

lemma runEnd_pos: "content \<noteq> [] \<Longrightarrow> 0 < runEnd content"
  by (cases content) (auto simp: runEnd_def drop_Suc)

lemma runEnd_decreases: "content \<noteq> [] \<Longrightarrow> length content - runEnd content < length content"
  using runEnd_pos [of content] by (cases content) auto

text \<open>The loop \<open>for len(content) > 0\<close>: the hunks in the order they are appended to
  \<open>out\<close>.\<close>

function fmtLoop :: "DiffContent list \<Rightarrow> int \<Rightarrow> int \<Rightarrow> string \<Rightarrow> Hunk list" where
  "fmtLoop content ol nl d =
     (if content = [] then []
      else if drop (runEnd content) content = [] \<and> length (takeRun content) = 1
              \<and> AB (hd (takeRun content)) \<noteq> [] then []
      else
        let run = takeRun content;
            st = fmtRun 0 (length run) run (startState ol nl d);
            back = (if maxContext < length (AB (last run)) then int maxContext else 0)
        in hunkOf st # fmtLoop (drop (runEnd content) content) (oldLine st - back) (newLine st - back) (decl st))"
  by pat_completeness auto
termination
  by (relation "measure (\<lambda>(content, ol, nl, d). length content)") (simp_all add: runEnd_decreases)

declare fmtLoop.simps [simp del]


text \<open>\<open>%d\<close> of \<open>fmt.Sprintf\<close>: an integer in decimal, the digits produced from
  the least significant one.\<close>

definition digitChar :: "nat \<Rightarrow> char" where
  "digitChar k = ''0123456789'' ! k"

function natStr :: "nat \<Rightarrow> string \<Rightarrow> string" where
  "natStr n acc =
     (let acc' = digitChar (n mod 10) # acc
      in if n div 10 = 0 then acc' else natStr (n div 10) acc')"
  by pat_completeness auto
termination
  by (relation "measure (\<lambda>(n, acc). n)") auto

declare natStr.simps [simp del]

definition itoa :: "int \<Rightarrow> string" where
  "itoa i = (if i < 0 then CHR ''-'' # natStr (nat (- i)) [] else natStr (nat i) [])"

record DiffInfo =
  DiffHeader :: "string list"
  Content :: "DiffContent list"

definition hunkHeader :: "Hunk \<Rightarrow> string" where
  "hunkHeader h = ''@@ -'' @ itoa (hOldStart h) @ '','' @ itoa (hOldLen h)
     @ '' +'' @ itoa (hNewStart h) @ '','' @ itoa (hNewLen h) @ '' @@'' @ hDecl h"

definition textLine :: "string \<Rightarrow> Line" where
  "textLine t = \<lparr>Prefix = [], Text = t, Old = 0, New = 0\<rparr>"

definition formatUnifiedDiff :: "DiffInfo \<Rightarrow> Line list" where
  "formatUnifiedDiff diff =
     map textLine (DiffHeader diff)
     @ concat (map (\<lambda>h. textLine (hunkHeader h) # hLines h) (fmtLoop (Content diff) 1 1 []))"


text \<open>Closed forms used to state what the loops emit: the lines of a common,
  a removed and an added block numbered from given counters, and the value of
  \<open>decl\<close> after a scan of some lines.\<close>

fun ctxLines :: "string list \<Rightarrow> int \<Rightarrow> int \<Rightarrow> Line list" where
  "ctxLines [] ol nl = []"
| "ctxLines (l # ls) ol nl = \<lparr>Prefix = '' '', Text = l, Old = ol, New = nl\<rparr> # ctxLines ls (ol + 1) (nl + 1)"

fun delLines :: "string list \<Rightarrow> int \<Rightarrow> Line list" where
  "delLines [] ol = []"
| "delLines (l # ls) ol = \<lparr>Prefix = ''-'', Text = l, Old = ol, New = 0\<rparr> # delLines ls (ol + 1)"

fun addLines :: "string list \<Rightarrow> int \<Rightarrow> Line list" where
  "addLines [] nl = []"
| "addLines (l # ls) nl = \<lparr>Prefix = ''+'', Text = l, Old = 0, New = nl\<rparr> # addLines ls (nl + 1)"

fun declAfter :: "string list \<Rightarrow> string \<Rightarrow> string" where
  "declAfter [] d = d"
| "declAfter (l # ls) d = declAfter ls (if isDecl l then '' '' @ l else d)"


text \<open>The lines of the new side of the file in order (common and added lines: the
  lines the renderer tests with \<open>isDecl\<close>), and the most recent
  declaration-looking line of a list, with the space that precedes it in a header.\<close>

definition newSide :: "DiffContent list \<Rightarrow> string list" where
  "newSide content = concat (map (\<lambda>c. if AB c \<noteq> [] then AB c else B c) content)"

definition recentDecl :: "string list \<Rightarrow> string" where
  "recentDecl ls = (case rev (filter isDecl ls) of [] \<Rightarrow> [] | l # _ \<Rightarrow> '' '' @ l)"


section \<open>Properties of the unified diff\<close>

lemma emitAB_eq:
  "emitAB ls st = st\<lparr>chunk := chunk st @ ctxLines ls (oldLine st) (newLine st),
       oldLine := oldLine st + int (length ls), newLine := newLine st + int (length ls),
       decl := declAfter ls (decl st)\<rparr>"
  by (induction ls arbitrary: st) (simp_all add: algebra_simps)

lemma emitA_eq:
  "emitA ls st = st\<lparr>chunk := chunk st @ delLines ls (oldLine st),
       oldLine := oldLine st + int (length ls)\<rparr>"
  by (induction ls arbitrary: st) (simp_all add: algebra_simps)

lemma emitB_eq:
  "emitB ls st = st\<lparr>chunk := chunk st @ addLines ls (newLine st),
       newLine := newLine st + int (length ls), decl := declAfter ls (decl st)\<rparr>"
  by (induction ls arbitrary: st) (simp_all add: algebra_simps)

lemma declAfter_none: "\<forall>l\<in>set ls. \<not> isDecl l \<Longrightarrow> declAfter ls d = d"
  by (induction ls arbitrary: d) auto

lemma declAfter_append: "declAfter (xs @ ys) d = declAfter ys (declAfter xs d)"
  by (induction xs arbitrary: d) simp_all

lemma declAfter_take_drop: "declAfter (drop k xs) (declAfter (take k xs) d) = declAfter xs d"
  using declAfter_append [of "take k xs" "drop k xs" d] by simp

lemma scanSkipped_eq:
  "scanSkipped ls st = st\<lparr>decl := declAfter ls (decl st),
       startDecl := (if \<exists>l\<in>set ls. isDecl l then declAfter ls (decl st) else startDecl st)\<rparr>"
  by (induction ls arbitrary: st) (auto simp: declAfter_none)

lemma fmtRun_append:
  "fmtRun i n (xs @ ys) st = fmtRun (i + length xs) n ys (fmtRun i n xs st)"
  by (induction xs arbitrary: i st) simp_all

lemma fmtChunk_replace:
  "AB c = [] \<Longrightarrow> fmtChunk i n c st =
     st\<lparr>chunk := chunk st @ delLines (A c) (oldLine st) @ addLines (B c) (newLine st),
        oldLine := oldLine st + int (length (A c)),
        newLine := newLine st + int (length (B c)),
        decl := declAfter (B c) (decl st)\<rparr>"
  by (simp add: fmtChunk_def emitA_eq emitB_eq)

lemma fmtChunk_leading:
  "maxContext < length (AB c) \<Longrightarrow> fmtChunk 0 n c st =
     st\<lparr>chunk := chunk st @ ctxLines (drop (length (AB c) - maxContext) (AB c))
                   (oldLine st + int (length (AB c) - maxContext))
                   (newLine st + int (length (AB c) - maxContext)),
        oldStart := oldStart st + int (length (AB c) - maxContext),
        newStart := newStart st + int (length (AB c) - maxContext),
        oldLine := oldLine st + int (length (AB c)),
        newLine := newLine st + int (length (AB c)),
        startDecl := (if \<exists>l\<in>set (take (length (AB c) - maxContext) (AB c)). isDecl l
                      then declAfter (take (length (AB c) - maxContext) (AB c)) (decl st)
                      else startDecl st),
        decl := declAfter (AB c) (decl st)\<rparr>"
proof -
  assume long: "maxContext < length (AB c)"
  then have ne: "AB c \<noteq> []" by auto
  have len: "int (length (AB c) - maxContext) + int (length (AB c) - (length (AB c) - maxContext)) = int (length (AB c))"
    using long by simp
  show ?thesis
    using long ne len
    by (simp add: fmtChunk_def Let_def scanSkipped_eq emitAB_eq declAfter_take_drop add.assoc)
qed

lemma fmtChunk_trailing:
  "0 < i \<Longrightarrow> Suc i = n \<Longrightarrow> maxContext < length (AB c) \<Longrightarrow> fmtChunk i n c st =
     st\<lparr>chunk := chunk st @ ctxLines (take maxContext (AB c)) (oldLine st) (newLine st),
        oldLine := oldLine st + int maxContext,
        newLine := newLine st + int maxContext,
        decl := declAfter (take maxContext (AB c)) (decl st)\<rparr>"
  by (auto simp add: fmtChunk_def emitAB_eq)

lemma fmtChunk_keeps:
  "0 < i \<Longrightarrow> oldStart (fmtChunk i n c st) = oldStart st \<and> newStart (fmtChunk i n c st) = newStart st
     \<and> startDecl (fmtChunk i n c st) = startDecl st
     \<and> (\<exists>ls. chunk (fmtChunk i n c st) = chunk st @ ls)"
  by (auto simp add: fmtChunk_def emitAB_eq emitA_eq emitB_eq)

lemma fmtRun_keeps:
  "0 < i \<Longrightarrow> oldStart (fmtRun i n cs st) = oldStart st \<and> newStart (fmtRun i n cs st) = newStart st
     \<and> startDecl (fmtRun i n cs st) = startDecl st
     \<and> (\<exists>ls. chunk (fmtRun i n cs st) = chunk st @ ls)"
proof (induction cs arbitrary: i st)
  case Nil
  then show ?case by simp
next
  case (Cons c cs)
  from fmtChunk_keeps [OF Cons.prems, of n c st] obtain ls where
    a: "oldStart (fmtChunk i n c st) = oldStart st" "newStart (fmtChunk i n c st) = newStart st"
       "startDecl (fmtChunk i n c st) = startDecl st" "chunk (fmtChunk i n c st) = chunk st @ ls"
    by blast
  from Cons.IH [of "Suc i" "fmtChunk i n c st"] obtain ls' where
    b: "oldStart (fmtRun (Suc i) n cs (fmtChunk i n c st)) = oldStart (fmtChunk i n c st)"
       "newStart (fmtRun (Suc i) n cs (fmtChunk i n c st)) = newStart (fmtChunk i n c st)"
       "startDecl (fmtRun (Suc i) n cs (fmtChunk i n c st)) = startDecl (fmtChunk i n c st)"
       "chunk (fmtRun (Suc i) n cs (fmtChunk i n c st)) = chunk (fmtChunk i n c st) @ ls'"
    by auto
  from a b show ?case by simp
qed

lemma takeWhile_stops:
  "x \<in> set xs \<Longrightarrow> \<not> P x \<Longrightarrow>
   length (takeWhile P xs) < length xs \<and> \<not> P (xs ! length (takeWhile P xs))"
  by (induction xs) auto

lemma runEnd_cases:
  assumes r1: "AB r1 = []" and c: "2 * maxContext < length (AB c)"
  shows "runEnd (pre @ r1 # c # rest) = length pre + 1
       \<or> (0 < runEnd (pre @ r1 # c # rest) \<and> runEnd (pre @ r1 # c # rest) < length pre
          \<and> 2 * maxContext < length (AB (pre ! runEnd (pre @ r1 # c # rest))))"
proof -
  let ?content = "pre @ r1 # c # rest"
  let ?small = "\<lambda>c. length (AB c) \<le> 2 * maxContext"
  define i0 :: nat where "i0 = (if AB (hd ?content) \<noteq> [] then 1 else 0)"
  have i0: "i0 \<le> length pre" using r1 by (cases pre) (auto simp: i0_def)
  have k: "runEnd ?content = i0 + length (takeWhile ?small (drop i0 pre @ r1 # c # rest))"
    using i0 by (simp add: runEnd_def i0_def Let_def)
  have pos: "0 < runEnd ?content" by (rule runEnd_pos) simp
  show ?thesis
  proof (cases "\<forall>x\<in>set (drop i0 pre). ?small x")
    case True
    then have "takeWhile ?small (drop i0 pre @ r1 # c # rest) = drop i0 pre @ [r1]"
      using r1 c by (simp add: takeWhile_append2)
    with k i0 show ?thesis by simp
  next
    case False
    then obtain x where x: "x \<in> set (drop i0 pre)" "\<not> ?small x" by blast
    then have tw: "takeWhile ?small (drop i0 pre @ r1 # c # rest) = takeWhile ?small (drop i0 pre)"
      by (simp add: takeWhile_append1)
    from takeWhile_stops [of x "drop i0 pre" ?small] x
    have lt: "length (takeWhile ?small (drop i0 pre)) < length (drop i0 pre)"
      and big: "\<not> ?small (drop i0 pre ! length (takeWhile ?small (drop i0 pre)))" by blast+
    have "runEnd ?content < length pre" using k tw lt by simp
    moreover have "pre ! runEnd ?content = drop i0 pre ! length (takeWhile ?small (drop i0 pre))"
      using k tw lt i0 by simp
    ultimately show ?thesis using pos big by simp
  qed
qed


lemma fmtLoop_continue:
  "content \<noteq> [] \<Longrightarrow> drop (runEnd content) content \<noteq> [] \<or> length (takeRun content) \<noteq> 1 \<Longrightarrow>
   fmtLoop content ol nl d =
     hunkOf (fmtRun 0 (length (takeRun content)) (takeRun content) (startState ol nl d))
     # fmtLoop (drop (runEnd content) content)
         (oldLine (fmtRun 0 (length (takeRun content)) (takeRun content) (startState ol nl d))
            - (if maxContext < length (AB (last (takeRun content))) then int maxContext else 0))
         (newLine (fmtRun 0 (length (takeRun content)) (takeRun content) (startState ol nl d))
            - (if maxContext < length (AB (last (takeRun content))) then int maxContext else 0))
         (decl (fmtRun 0 (length (takeRun content)) (takeRun content) (startState ol nl d)))"
  by (subst fmtLoop.simps) (auto simp: Let_def)

lemma takeRun_leading:
  assumes "AB c \<noteq> []" and "AB r2 = []"
  shows "\<exists>rest2. takeRun (c # r2 # post) = c # r2 # rest2"
proof -
  let ?small = "\<lambda>c. length (AB c) \<le> 2 * maxContext"
  have k: "runEnd (c # r2 # post) = Suc (Suc (length (takeWhile ?small post)))"
    using assms by (simp add: runEnd_def)
  show ?thesis unfolding takeRun_def Let_def k by simp
qed

lemma collapse_second:
  assumes c: "length (AB c) = 10" and r2: "AB r2 = []"
  shows "\<exists>h2 hs2 ls2. fmtLoop (c # r2 # post) ol nl d = h2 # hs2
     \<and> hOldStart h2 = ol + 7 \<and> hNewStart h2 = nl + 7
     \<and> hLines h2 = ctxLines (drop 7 (AB c)) (ol + 7) (nl + 7)
          @ delLines (A r2) (ol + 10) @ addLines (B r2) (nl + 10) @ ls2"
proof -
  from c have ne: "AB c \<noteq> []" by auto
  from takeRun_leading [OF ne r2] obtain rest2 where run: "takeRun (c # r2 # post) = c # r2 # rest2"
    by blast
  define n where "n = length (c # r2 # rest2)"
  define sta where "sta = fmtChunk 0 n c (startState ol nl d)"
  define stb where "stb = fmtChunk 1 n r2 sta"
  define st where "st = fmtRun 2 n rest2 stb"
  have st: "fmtRun 0 (length (takeRun (c # r2 # post))) (takeRun (c # r2 # post)) (startState ol nl d) = st"
    by (simp add: run st_def stb_def sta_def n_def numeral_2_eq_2)
  from fmtLoop_continue [of "c # r2 # post" ol nl d] run
  obtain hs2 where loop: "fmtLoop (c # r2 # post) ol nl d = hunkOf st # hs2"
    unfolding st by simp
  have a: "oldStart sta = ol + 7" "newStart sta = nl + 7" "oldLine sta = ol + 10" "newLine sta = nl + 10"
      "chunk sta = ctxLines (drop 7 (AB c)) (ol + 7) (nl + 7)"
    using c by (simp_all add: sta_def fmtChunk_leading startState_def)
  have b: "oldStart stb = ol + 7" "newStart stb = nl + 7"
      "chunk stb = ctxLines (drop 7 (AB c)) (ol + 7) (nl + 7) @ delLines (A r2) (ol + 10) @ addLines (B r2) (nl + 10)"
    using a r2 by (simp_all add: stb_def fmtChunk_replace)
  from fmtRun_keeps [of 2 n rest2 stb] obtain ls2 where
    k: "oldStart st = oldStart stb" "newStart st = newStart stb" "chunk st = chunk stb @ ls2"
    unfolding st_def by auto
  have "hOldStart (hunkOf st) = ol + 7 \<and> hNewStart (hunkOf st) = nl + 7
     \<and> hLines (hunkOf st) = ctxLines (drop 7 (AB c)) (ol + 7) (nl + 7)
          @ delLines (A r2) (ol + 10) @ addLines (B r2) (nl + 10) @ ls2"
    using b k by (simp add: hunkOf_def)
  with loop show ?thesis by blast
qed


lemma collapse_first:
  assumes r1: "AB r1 = []" and c: "length (AB c) = 10"
    and k: "runEnd (pre @ r1 # c # rest) = length pre + 1"
  shows "\<exists>h1 ls1 o1 n1 d'. fmtLoop (pre @ r1 # c # rest) ol nl d
        = h1 # fmtLoop (c # rest) (o1 + int (length (A r1))) (n1 + int (length (B r1))) d'
     \<and> hLines h1 = ls1 @ delLines (A r1) o1 @ addLines (B r1) n1
          @ ctxLines (take 3 (AB c)) (o1 + int (length (A r1))) (n1 + int (length (B r1)))"
proof -
  let ?content = "pre @ r1 # c # rest"
  have run: "takeRun ?content = pre @ [r1, c]"
    using c by (simp add: takeRun_def k nth_append)
  have dr: "drop (runEnd ?content) ?content = c # rest" by (simp add: k)
  define n where "n = length (pre @ [r1, c])"
  define stp where "stp = fmtRun 0 n pre (startState ol nl d)"
  define st1 where "st1 = fmtChunk (length pre) n r1 stp"
  define st where "st = fmtChunk (Suc (length pre)) n c st1"
  have st: "fmtRun 0 (length (takeRun ?content)) (takeRun ?content) (startState ol nl d) = st"
    by (simp add: run fmtRun_append st_def st1_def stp_def n_def)
  have a: "chunk st1 = chunk stp @ delLines (A r1) (oldLine stp) @ addLines (B r1) (newLine stp)"
      "oldLine st1 = oldLine stp + int (length (A r1))" "newLine st1 = newLine stp + int (length (B r1))"
    using r1 by (simp_all add: st1_def fmtChunk_replace)
  have b: "chunk st = chunk st1 @ ctxLines (take 3 (AB c)) (oldLine st1) (newLine st1)"
      "oldLine st = oldLine st1 + 3" "newLine st = newLine st1 + 3"
    using c by (simp_all add: st_def n_def fmtChunk_trailing)
  have "fmtLoop ?content ol nl d = hunkOf st # fmtLoop (c # rest) (oldLine st - 3) (newLine st - 3) (decl st)"
    using fmtLoop_continue [of ?content ol nl d] c unfolding st dr by (simp add: run)
  then show ?thesis using a b by (auto simp: hunkOf_def)
qed

lemma collapse_general:
  assumes r1: "AB r1 = []" and r2: "AB r2 = []" and c: "length (AB c) = 10"
  shows "\<exists>hs1 h1 h2 hs2 ls1 ls2 o1 n1.
     fmtLoop (pre @ r1 # c # r2 # post) ol nl d = hs1 @ h1 # h2 # hs2
     \<and> hLines h1 = ls1 @ delLines (A r1) o1 @ addLines (B r1) n1
          @ ctxLines (take 3 (AB c)) (o1 + int (length (A r1))) (n1 + int (length (B r1)))
     \<and> hOldStart h2 = o1 + int (length (A r1)) + 7 \<and> hNewStart h2 = n1 + int (length (B r1)) + 7
     \<and> hLines h2 = ctxLines (drop 7 (AB c)) (o1 + int (length (A r1)) + 7) (n1 + int (length (B r1)) + 7)
          @ delLines (A r2) (o1 + int (length (A r1)) + 10)
          @ addLines (B r2) (n1 + int (length (B r1)) + 10) @ ls2"
proof (induction "length pre" arbitrary: pre ol nl d rule: less_induct)
  case less
  let ?content = "pre @ r1 # c # r2 # post"
  from c have big: "2 * maxContext < length (AB c)" by simp
  from runEnd_cases [OF r1 big, of pre "r2 # post"]
  consider (A) "runEnd ?content = length pre + 1"
    | (B) "0 < runEnd ?content" "runEnd ?content < length pre"
    by auto
  then show ?case
  proof cases
    case A
    from collapse_first [OF r1 c A, of ol nl d] obtain h1 ls1 o1 n1 d' where
      1: "fmtLoop ?content ol nl d
          = h1 # fmtLoop (c # r2 # post) (o1 + int (length (A r1))) (n1 + int (length (B r1))) d'"
      and 2: "hLines h1 = ls1 @ delLines (A r1) o1 @ addLines (B r1) n1
          @ ctxLines (take 3 (AB c)) (o1 + int (length (A r1))) (n1 + int (length (B r1)))"
      by blast
    from collapse_second [OF c r2, of post "o1 + int (length (A r1))" "n1 + int (length (B r1))" d']
    obtain h2 hs2 ls2 where
      3: "fmtLoop (c # r2 # post) (o1 + int (length (A r1))) (n1 + int (length (B r1))) d' = h2 # hs2"
      and 4: "hOldStart h2 = o1 + int (length (A r1)) + 7" "hNewStart h2 = n1 + int (length (B r1)) + 7"
        "hLines h2 = ctxLines (drop 7 (AB c)) (o1 + int (length (A r1)) + 7) (n1 + int (length (B r1)) + 7)
          @ delLines (A r2) (o1 + int (length (A r1)) + 10)
          @ addLines (B r2) (n1 + int (length (B r1)) + 10) @ ls2"
      by blast
    have "fmtLoop ?content ol nl d = [] @ h1 # h2 # hs2" using 1 3 by simp
    with 2 4 show ?thesis by blast
  next
    case B
    let ?k = "runEnd ?content"
    have dr: "drop ?k ?content = drop ?k pre @ r1 # c # r2 # post" using B by simp
    have shorter: "length (drop ?k pre) < length pre" using B by simp
    have ne: "drop ?k ?content \<noteq> []" unfolding dr by simp
    have "\<exists>h0 ol' nl' d'. fmtLoop ?content ol nl d = h0 # fmtLoop (drop ?k ?content) ol' nl' d'"
      by (subst fmtLoop_continue) (use ne in blast)+
    then obtain h0 ol' nl' d' where
      1: "fmtLoop ?content ol nl d = h0 # fmtLoop (drop ?k pre @ r1 # c # r2 # post) ol' nl' d'"
      unfolding dr by blast
    from less [OF shorter, of ol' nl' d'] obtain hs1 h1 h2 hs2 ls1 ls2 o1 n1 where
      2: "fmtLoop (drop ?k pre @ r1 # c # r2 # post) ol' nl' d' = hs1 @ h1 # h2 # hs2"
      and 3: "hLines h1 = ls1 @ delLines (A r1) o1 @ addLines (B r1) n1
          @ ctxLines (take 3 (AB c)) (o1 + int (length (A r1))) (n1 + int (length (B r1)))"
        "hOldStart h2 = o1 + int (length (A r1)) + 7" "hNewStart h2 = n1 + int (length (B r1)) + 7"
        "hLines h2 = ctxLines (drop 7 (AB c)) (o1 + int (length (A r1)) + 7) (n1 + int (length (B r1)) + 7)
          @ delLines (A r2) (o1 + int (length (A r1)) + 10)
          @ addLines (B r2) (n1 + int (length (B r1)) + 10) @ ls2"
      by blast
    have "fmtLoop ?content ol nl d = (h0 # hs1) @ h1 # h2 # hs2" using 1 2 by simp
    with 3 show ?thesis by blast
  qed
qed

lemma newSide_append: "newSide (xs @ ys) = newSide xs @ newSide ys"
  by (simp add: newSide_def)

lemma newSide_Cons: "newSide (c # cs) = (if AB c \<noteq> [] then AB c else B c) @ newSide cs"
  by (simp add: newSide_def)

lemma newSide_Nil: "newSide [] = []"
  by (simp add: newSide_def)

lemma declAfter_recent:
  "declAfter ls d = (if \<exists>l\<in>set ls. isDecl l then recentDecl ls else d)"
proof (induction ls rule: rev_induct)
  case Nil
  then show ?case by simp
next
  case (snoc x xs)
  then show ?case
    by (auto simp: declAfter_append recentDecl_def)
qed

lemma recentDecl_declAfter: "recentDecl ls = declAfter ls []"
  by (auto simp: declAfter_recent recentDecl_def filter_empty_conv)

lemma declAfter_absorb: "declAfter ab (declAfter (take j ab) d) = declAfter ab d"
proof (cases "\<exists>l\<in>set ab. isDecl l")
  case True
  then show ?thesis by (simp add: declAfter_recent [of ab])
next
  case False
  then have "\<forall>l\<in>set (take j ab). \<not> isDecl l" by (auto dest: in_set_takeD)
  then show ?thesis by (simp add: declAfter_none)
qed

lemma declAfter_absorb_take:
  "j \<le> k \<Longrightarrow> declAfter (take k ab) (declAfter (take j ab) d) = declAfter (take k ab) d"
  using declAfter_absorb [of "take k ab" j d] by (simp add: min_def)

lemma fmtChunk_full:
  "Suc i \<noteq> n \<or> length (AB c) \<le> maxContext \<Longrightarrow>
   newLine (fmtChunk i n c st) = newLine st + int (length (newSide [c]))
   \<and> decl (fmtChunk i n c st) = declAfter (newSide [c]) (decl st)"
proof (cases "AB c = []")
  case True
  then show ?thesis by (simp add: fmtChunk_replace newSide_def)
next
  case False
  assume a: "Suc i \<noteq> n \<or> length (AB c) \<le> maxContext"
  show ?thesis
  proof (cases "i = 0 \<and> maxContext < length (AB c)")
    case True
    then show ?thesis using False by (simp add: fmtChunk_leading newSide_def)
  next
    case no: False
    then have "fmtChunk i n c st = emitAB (AB c) st"
      using False a by (auto simp: fmtChunk_def)
    then show ?thesis using False by (simp add: emitAB_eq newSide_def)
  qed
qed

lemma fmtRun_full:
  "i + length cs < n \<Longrightarrow>
   newLine (fmtRun i n cs st) = newLine st + int (length (newSide cs))
   \<and> decl (fmtRun i n cs st) = declAfter (newSide cs) (decl st)"
proof (induction cs arbitrary: i st)
  case Nil
  then show ?case by (simp add: newSide_def)
next
  case (Cons c cs)
  from Cons.prems have "Suc i \<noteq> n" by simp
  then have c: "newLine (fmtChunk i n c st) = newLine st + int (length (newSide [c]))"
     "decl (fmtChunk i n c st) = declAfter (newSide [c]) (decl st)"
    using fmtChunk_full [of i n c st] by simp_all
  from Cons.prems have "Suc i + length cs < n" by simp
  from Cons.IH [OF this, of "fmtChunk i n c st"] c
  show ?case
    using newSide_append [of "[c]" cs] by (simp add: declAfter_append)
qed

lemma fmtChunk_noskip:
  "\<not> maxContext < length (AB c) \<Longrightarrow>
   newStart (fmtChunk i n c st) = newStart st \<and> startDecl (fmtChunk i n c st) = startDecl st"
  by (auto simp: fmtChunk_def emitAB_eq emitA_eq emitB_eq)

lemma fmtChunk_skip:
  "maxContext < length (AB c) \<Longrightarrow>
   newStart (fmtChunk 0 n c st) = newStart st + int (length (AB c) - maxContext)
   \<and> startDecl (fmtChunk 0 n c st)
       = (if \<exists>l\<in>set (take (length (AB c) - maxContext) (AB c)). isDecl l
          then declAfter (take (length (AB c) - maxContext) (AB c)) (decl st) else startDecl st)"
  by (simp add: fmtChunk_leading)

lemma runEnd_stop:
  assumes "runEnd content < length content"
  shows "2 * maxContext < length (AB (content ! runEnd content))"
proof -
  let ?small = "\<lambda>c. length (AB c) \<le> 2 * maxContext"
  define i0 :: nat where "i0 = (if AB (hd content) \<noteq> [] then 1 else 0)"
  have k: "runEnd content = i0 + length (takeWhile ?small (drop i0 content))"
    by (simp add: runEnd_def i0_def Let_def)
  with assms have lt: "length (takeWhile ?small (drop i0 content)) < length (drop i0 content)"
    by simp
  from nth_length_takeWhile [OF lt] have "\<not> ?small (drop i0 content ! length (takeWhile ?small (drop i0 content)))" .
  moreover have "drop i0 content ! length (takeWhile ?small (drop i0 content)) = content ! runEnd content"
    using k assms by simp
  ultimately show ?thesis by simp
qed

lemma takeRun_stop:
  assumes "runEnd content < length content"
  shows "takeRun content = take (runEnd content) content @ [content ! runEnd content]"
  using assms runEnd_stop [OF assms] by (simp add: takeRun_def Let_def take_Suc_conv_app_nth)

lemma takeRun_hd:
  assumes "content \<noteq> []"
  shows "\<exists>cs. takeRun content = hd content # cs"
proof -
  obtain c rest where content: "content = c # rest" using assms by (cases content) auto
  from runEnd_pos [OF assms] obtain k where k: "runEnd content = Suc k" by (cases "runEnd content") auto
  show ?thesis unfolding takeRun_def Let_def k by (simp add: content)
qed


lemma hunk_decl_general:
  assumes nl: "nl = 1 + int (length (newSide pre))"
    and d: "d = declAfter (newSide pre) []
         \<or> (content \<noteq> [] \<and> 2 * maxContext < length (AB (hd content))
             \<and> d = declAfter (take maxContext (AB (hd content))) (declAfter (newSide pre) []))"
    and h: "h \<in> set (fmtLoop content ol nl d)"
  shows "hDecl h = truncDecl (declAfter (take (nat (hNewStart h - 1)) (newSide (pre @ content))) [])"
  using nl d h
proof (induction "length content" arbitrary: content pre ol nl d rule: less_induct)
  case less
  note nl = less.prems(1) and d = less.prems(2) and h = less.prems(3)
  have ne: "content \<noteq> []" using h by (auto simp: fmtLoop.simps)
  then obtain c0 rest where content: "content = c0 # rest" by (cases content) auto
  let ?k = "runEnd content"
  let ?run = "takeRun content"
  define st where "st = fmtRun 0 (length ?run) ?run (startState ol nl d)"
  define rewind where "rewind = (if maxContext < length (AB (last ?run)) then int maxContext else 0)"
  have loop: "fmtLoop content ol nl d
      = hunkOf st # fmtLoop (drop ?k content) (oldLine st - rewind) (newLine st - rewind) (decl st)"
  proof -
    have nodrop: "\<not> (drop ?k content = [] \<and> length ?run = 1 \<and> AB (hd ?run) \<noteq> [])"
    proof
      assume "drop ?k content = [] \<and> length ?run = 1 \<and> AB (hd ?run) \<noteq> []"
      then have "fmtLoop content ol nl d = []" by (subst fmtLoop.simps) simp
      with h show False by simp
    qed
    show ?thesis
      by (subst fmtLoop.simps) (use ne nodrop in \<open>simp add: Let_def st_def rewind_def\<close>)
  qed
  from takeRun_hd [OF ne] obtain cs where run: "?run = c0 # cs" by (auto simp: content)
  define sta where "sta = fmtChunk 0 (length ?run) c0 (startState ol nl d)"
  have st1: "st = fmtRun 1 (length ?run) cs sta"
    unfolding st_def sta_def by (subst (2) run) simp
  have keep: "newStart st = newStart sta" "startDecl st = startDecl sta"
    using fmtRun_keeps [of 1 "length ?run" cs sta] by (simp_all add: st1)
  let ?D = "declAfter (newSide pre) []"
  from h loop consider (head) "h = hunkOf st"
    | (tail) "h \<in> set (fmtLoop (drop ?k content) (oldLine st - rewind) (newLine st - rewind) (decl st))"
    by auto
  then show ?case
  proof cases
    case head
    show ?thesis
    proof (cases "maxContext < length (AB c0)")
      case True
      let ?skip = "length (AB c0) - maxContext"
      have ns: "newStart sta = nl + int ?skip"
        and sd: "startDecl sta = declAfter (take ?skip (AB c0)) d"
        using fmtChunk_skip [OF True, of "length ?run" "startState ol nl d"]
        by (auto simp: sta_def startState_def declAfter_none)
      have ab: "AB c0 \<noteq> []" using True by auto
      have "hNewStart h - 1 = int (length (newSide pre) + ?skip)"
        using ns keep nl by (simp add: head hunkOf_def)
      then have idx: "nat (hNewStart h - 1) = length (newSide pre) + ?skip"
        by (simp only: nat_int)
      have tk: "take (nat (hNewStart h - 1)) (newSide (pre @ content)) = newSide pre @ take ?skip (AB c0)"
        unfolding idx using ab by (simp add: content newSide_append newSide_Cons)
      have "declAfter (take ?skip (AB c0)) d = declAfter (take ?skip (AB c0)) ?D"
      proof -
        from d consider "d = ?D" | "2 * maxContext < length (AB c0)" "d = declAfter (take maxContext (AB c0)) ?D"
          by (auto simp: content)
        then show ?thesis
        proof cases
          case 1
          then show ?thesis by simp
        next
          case 2
          then have "maxContext \<le> ?skip" by simp
          from declAfter_absorb_take [OF this] 2 show ?thesis by simp
        qed
      qed
      then have "hDecl h = truncDecl (declAfter (newSide pre @ take ?skip (AB c0)) [])"
        using sd keep by (simp add: head hunkOf_def declAfter_append)
      then show ?thesis by (simp only: tk)
    next
      case False
      have ns: "newStart sta = nl" "startDecl sta = d"
        using fmtChunk_noskip [OF False, of 0 "length ?run" "startState ol nl d"]
        by (simp_all add: sta_def startState_def)
      have dD: "d = ?D" using d False by (auto simp: content)
      have tk: "take (nat (hNewStart h - 1)) (newSide (pre @ content)) = newSide pre"
        using ns keep nl by (simp add: head hunkOf_def newSide_append)
      have "hDecl h = truncDecl (declAfter (newSide pre) [])"
        using ns keep dD by (simp add: head hunkOf_def)
      then show ?thesis by (simp only: tk)
    qed
  next
    case tail
    have dne: "drop ?k content \<noteq> []" using tail by (auto simp: fmtLoop.simps)
    then have klt: "?k < length content" by simp
    let ?cb = "content ! ?k"
    from runEnd_stop [OF klt] have big: "2 * maxContext < length (AB ?cb)" .
    from takeRun_stop [OF klt] have run2: "?run = take ?k content @ [?cb]" .
    have kpos: "0 < ?k" using runEnd_pos [OF ne] .
    have len: "length ?run = Suc ?k" using klt by (simp add: run2)
    define stm where "stm = fmtRun 0 (Suc ?k) (take ?k content) (startState ol nl d)"
    have st2: "st = fmtChunk ?k (Suc ?k) ?cb stm"
      unfolding st_def stm_def len by (subst run2) (use klt in \<open>simp add: fmtRun_append\<close>)
    have m: "newLine stm = nl + int (length (newSide (take ?k content)))"
         "decl stm = declAfter (newSide (take ?k content)) d"
      using fmtRun_full [of 0 "take ?k content" "Suc ?k" "startState ol nl d"] klt
      by (simp_all add: stm_def startState_def)
    have tr: "newLine st = newLine stm + int maxContext"
         "decl st = declAfter (take maxContext (AB ?cb)) (decl stm)"
      using fmtChunk_trailing [OF kpos refl, of ?cb stm] big by (simp_all add: st2)
    have bkeq: "rewind = int maxContext" using big by (simp add: rewind_def run2)
    have hd: "hd (drop ?k content) = ?cb" using klt by (simp add: hd_drop_conv_nth)
    have nl': "newLine st - rewind = 1 + int (length (newSide (pre @ take ?k content)))"
      using tr m bkeq nl by (simp add: newSide_append)
    have "declAfter (newSide (take ?k content)) d = declAfter (newSide (take ?k content)) ?D"
    proof -
      from d consider "d = ?D" | "2 * maxContext < length (AB c0)" "d = declAfter (take maxContext (AB c0)) ?D"
        by (auto simp: content)
      then show ?thesis
      proof cases
        case 1
        then show ?thesis by simp
      next
        case 2
        then have ab: "AB c0 \<noteq> []" by auto
        obtain k' where k': "?k = Suc k'" using kpos by (cases ?k) auto
        have "newSide (take ?k content) = AB c0 @ newSide (take k' rest)"
          unfolding k' using ab by (simp add: content newSide_Cons)
        then show ?thesis using 2 by (simp add: declAfter_append declAfter_absorb)
      qed
    qed
    then have d': "decl st = declAfter (take maxContext (AB (hd (drop ?k content)))) (declAfter (newSide (pre @ take ?k content)) [])"
      using tr m by (simp add: hd newSide_append declAfter_append)
    have shorter: "length (drop ?k content) < length content" using kpos klt by simp
    have "hDecl h = truncDecl (declAfter (take (nat (hNewStart h - 1)) (newSide ((pre @ take ?k content) @ drop ?k content))) [])"
      by (rule less.hyps [OF shorter nl' _ tail]) (use dne big hd d' in auto)
    then show ?thesis by simp
  qed
qed

lemma list3: "length xs = 3 \<Longrightarrow> xs = [xs ! 0, xs ! 1, xs ! 2]"
  by (auto simp: numeral_3_eq_3 length_Suc_conv)

text \<open>
  Claim C3. Take any diff in which a common block \<open>c\<close> of 10 lines stands between
  two replace blocks \<open>r1\<close> and \<open>r2\<close>, anywhere in the content. In the rendered
  output the lines of \<open>r1\<close> are followed by exactly the first three lines of
  \<open>c\<close> as context, numbered from the counters \<open>ol\<close>, \<open>nl\<close> reached after \<open>r1\<close>;
  the next line is the header of the following hunk, which starts at \<open>ol + 7\<close>,
  \<open>nl + 7\<close>; then come exactly the last three lines of \<open>c\<close>, numbered from
  \<open>ol + 7\<close>, \<open>nl + 7\<close>, and the lines of \<open>r2\<close>, numbered from \<open>ol + 10\<close> and
  \<open>nl + 10\<close>: the four clipped lines leave no line and no marker, and the
  counters advance by the full length of the block.
\<close>

theorem hunk_collapse:
  assumes r1: "AB r1 = []" and r2: "AB r2 = []" and c: "length (AB c) = 10"
    and diff: "Content diff = pre @ r1 # c # r2 # post"
  shows "\<exists>before after ol nl olen nlen dcl.
     formatUnifiedDiff diff =
       before @ delLines (A r1) (ol - int (length (A r1))) @ addLines (B r1) (nl - int (length (B r1)))
       @ ctxLines [AB c ! 0, AB c ! 1, AB c ! 2] ol nl
       @ [textLine (''@@ -'' @ itoa (ol + 7) @ '','' @ itoa olen @ '' +'' @ itoa (nl + 7) @ '','' @ itoa nlen @ '' @@'' @ dcl)]
       @ ctxLines [AB c ! 7, AB c ! 8, AB c ! 9] (ol + 7) (nl + 7)
       @ delLines (A r2) (ol + 10) @ addLines (B r2) (nl + 10) @ after"
proof -
  from collapse_general [OF r1 r2 c, of pre post 1 1 "[]"]
  obtain hs1 h1 h2 hs2 ls1 ls2 o1 n1 where
    loop: "fmtLoop (pre @ r1 # c # r2 # post) 1 1 [] = hs1 @ h1 # h2 # hs2"
    and h1: "hLines h1 = ls1 @ delLines (A r1) o1 @ addLines (B r1) n1
          @ ctxLines (take 3 (AB c)) (o1 + int (length (A r1))) (n1 + int (length (B r1)))"
    and h2: "hOldStart h2 = o1 + int (length (A r1)) + 7" "hNewStart h2 = n1 + int (length (B r1)) + 7"
     "hLines h2 = ctxLines (drop 7 (AB c)) (o1 + int (length (A r1)) + 7) (n1 + int (length (B r1)) + 7)
          @ delLines (A r2) (o1 + int (length (A r1)) + 10)
          @ addLines (B r2) (n1 + int (length (B r1)) + 10) @ ls2"
    by blast
  define ol where "ol = o1 + int (length (A r1))"
  define nl where "nl = n1 + int (length (B r1))"
  let ?render = "\<lambda>h. textLine (hunkHeader h) # hLines h"
  have t3: "take 3 (AB c) = [AB c ! 0, AB c ! 1, AB c ! 2]"
    using list3 [of "take 3 (AB c)"] c by simp
  have d7: "drop 7 (AB c) = [AB c ! 7, AB c ! 8, AB c ! 9]"
    using list3 [of "drop 7 (AB c)"] c by simp
  have "formatUnifiedDiff diff =
       (map textLine (DiffHeader diff) @ concat (map ?render hs1) @ [textLine (hunkHeader h1)] @ ls1)
       @ delLines (A r1) (ol - int (length (A r1))) @ addLines (B r1) (nl - int (length (B r1)))
       @ ctxLines [AB c ! 0, AB c ! 1, AB c ! 2] ol nl
       @ [textLine (''@@ -'' @ itoa (ol + 7) @ '','' @ itoa (hOldLen h2) @ '' +'' @ itoa (nl + 7) @ '','' @ itoa (hNewLen h2) @ '' @@'' @ hDecl h2)]
       @ ctxLines [AB c ! 7, AB c ! 8, AB c ! 9] (ol + 7) (nl + 7)
       @ delLines (A r2) (ol + 10) @ addLines (B r2) (nl + 10) @ (ls2 @ concat (map ?render hs2))"
    using h1 h2 by (simp add: formatUnifiedDiff_def diff loop hunkHeader_def ol_def nl_def t3 d7)
  then show ?thesis by blast
qed

theorem hunk_collapse_witness:
  "\<exists>before after ol nl olen nlen dcl.
     formatUnifiedDiff \<lparr>DiffHeader = [], Content =
         [\<lparr>A = [''x''], B = [''y''], AB = []\<rparr>,
          \<lparr>A = [], B = [], AB = [''k0'', ''k1'', ''k2'', ''k3'', ''k4'', ''k5'', ''k6'', ''k7'', ''k8'', ''k9'']\<rparr>,
          \<lparr>A = [], B = [''z''], AB = []\<rparr>]\<rparr> =
       before @ delLines [''x''] (ol - 1) @ addLines [''y''] (nl - 1)
       @ ctxLines [''k0'', ''k1'', ''k2''] ol nl
       @ [textLine (''@@ -'' @ itoa (ol + 7) @ '','' @ itoa olen @ '' +'' @ itoa (nl + 7) @ '','' @ itoa nlen @ '' @@'' @ dcl)]
       @ ctxLines [''k7'', ''k8'', ''k9''] (ol + 7) (nl + 7)
       @ delLines [] (ol + 10) @ addLines [''z''] (nl + 10) @ after"
  using hunk_collapse [of "\<lparr>A = [''x''], B = [''y''], AB = []\<rparr>" "\<lparr>A = [], B = [''z''], AB = []\<rparr>"
      "\<lparr>A = [], B = [], AB = [''k0'', ''k1'', ''k2'', ''k3'', ''k4'', ''k5'', ''k6'', ''k7'', ''k8'', ''k9'']\<rparr>"
      "\<lparr>DiffHeader = [], Content =
         [\<lparr>A = [''x''], B = [''y''], AB = []\<rparr>,
          \<lparr>A = [], B = [], AB = [''k0'', ''k1'', ''k2'', ''k3'', ''k4'', ''k5'', ''k6'', ''k7'', ''k8'', ''k9'']\<rparr>,
          \<lparr>A = [], B = [''z''], AB = []\<rparr>]\<rparr>" "[]" "[]"]
  by simp

text \<open>A declaration line of 55 bytes, for the examples.\<close>

definition line55 :: string where
  "line55 = ''func (hs *historyListener) Accept() (c net.Conn, err er''"

text \<open>
  Claim C9, as amended. The annotation of every hunk header is the most recent
  declaration-looking line among the lines of the new side (common and added
  lines; removed lines are never looked at) that precede the first line the hunk
  shows, which are the lines before the hunk and the clipped lines of its leading
  common block; it is empty when there is none. The limits apply to the
  annotation with the space that separates it from \<open>@@\<close>: a declaration line
  of at most 54 bytes is shown whole, a longer one is cut to its first 49 bytes
  followed by \<open>...\<close>.
\<close>

theorem hunk_header_declaration:
  assumes "h \<in> set (fmtLoop (Content diff) 1 1 [])"
  shows "hunkHeader h = ''@@ -'' @ itoa (hOldStart h) @ '','' @ itoa (hOldLen h)
           @ '' +'' @ itoa (hNewStart h) @ '','' @ itoa (hNewLen h) @ '' @@''
           @ truncDecl (recentDecl (take (nat (hNewStart h - 1)) (newSide (Content diff))))
       \<and> truncDecl [] = []
       \<and> truncDecl ('' '' @ l) = (if 54 < length l then '' '' @ take 49 l @ ''...'' else '' '' @ l)"
proof -
  have "hDecl h = truncDecl (declAfter (take (nat (hNewStart h - 1)) (newSide ([] @ Content diff))) [])"
    by (rule hunk_decl_general [OF _ _ assms]) (simp_all add: newSide_Nil)
  then show ?thesis
    by (simp add: hunkHeader_def recentDecl_declAfter truncDecl_def)
qed

theorem hunk_header_declaration_witness:
  "\<lparr>hOldStart = 1, hOldLen = 1, hNewStart = 1, hNewLen = 0, hDecl = [],
     hLines = [\<lparr>Prefix = ''-'', Text = ''x'', Old = 1, New = 0\<rparr>]\<rparr>
     \<in> set (fmtLoop (Content \<lparr>DiffHeader = [], Content = [\<lparr>A = [''x''], B = [], AB = []\<rparr>]\<rparr>) 1 1 [])
   \<and> truncDecl ('' '' @ line55) = '' '' @ take 49 line55 @ ''...''"
proof -
  let ?h = "\<lparr>hOldStart = 1, hOldLen = 1, hNewStart = 1, hNewLen = 0, hDecl = [],
     hLines = [\<lparr>Prefix = ''-'', Text = ''x'', Old = 1, New = 0\<rparr>]\<rparr>"
  let ?diff = "\<lparr>DiffHeader = [], Content = [\<lparr>A = [''x''], B = [], AB = []\<rparr>]\<rparr>"
  have mem: "?h \<in> set (fmtLoop (Content ?diff) 1 1 [])"
    by (simp add: fmtLoop.simps runEnd_def takeRun_def Let_def fmtChunk_def startState_def hunkOf_def truncDecl_def)
  have len: "54 < length line55" by (simp add: line55_def)
  from hunk_header_declaration [OF mem, of line55] len
  have "truncDecl ('' '' @ line55) = '' '' @ take 49 line55 @ ''...''" by simp
  with mem show ?thesis by simp
qed

text \<open>A declaration line of 55 bytes is not shown whole, and is not cut to 50
  bytes either: the header keeps its first 49 bytes.\<close>

theorem declaration_55_counterexample:
  "length line55 = 55 \<and> isDecl line55
   \<and> map hDecl (fmtLoop [\<lparr>A = [], B = [], AB = [line55, ''a'', ''b'', ''c'']\<rparr>,
                          \<lparr>A = [''x''], B = [], AB = []\<rparr>] 1 1 [])
       = ['' func (hs *historyListener) Accept() (c net.Conn, ...'']
   \<and> '' func (hs *historyListener) Accept() (c net.Conn, ...'' \<noteq> '' '' @ line55
   \<and> '' func (hs *historyListener) Accept() (c net.Conn, ...'' \<noteq> '' '' @ take 50 line55 @ ''...''"
  by (simp add: line55_def fmtLoop.simps runEnd_def takeRun_def Let_def fmtChunk_def startState_def
      hunkOf_def truncDecl_def isDecl_def)


section \<open>More of package strings and strconv\<close>

text \<open>\<open>strings.SplitAfter(s, "\n")\<close>: the lines with their newline; the text after the
  last newline is the last piece, empty when the text ends in a newline.\<close>

fun SplitAfterNL :: "string \<Rightarrow> string list" where
  "SplitAfterNL [] = [[]]"
| "SplitAfterNL (c # cs) =
     (if c = CHR 0x0A then [c] # SplitAfterNL cs
      else (case SplitAfterNL cs of l # ls \<Rightarrow> (c # l) # ls | [] \<Rightarrow> [[c]]))"

text \<open>\<open>strings.Fields\<close>: the maximal runs of characters that are not white space.
  \<open>cur\<close> is the field being read. A byte that starts no white-space character is
  added to the field; stepping by one byte there gives the fields that stepping by
  one rune gives, because the bytes after the first byte of a well-formed rune are
  continuation bytes, and no white-space character starts with one.\<close>

function fieldsFrom :: "string \<Rightarrow> string \<Rightarrow> string list" where
  "fieldsFrom cur s =
     (if s = [] then (if cur = [] then [] else [cur])
      else if spaceWidth s = 0 then fieldsFrom (cur @ [hd s]) (tl s)
      else (if cur = [] then [] else [cur]) @ fieldsFrom [] (drop (spaceWidth s) s))"
  by pat_completeness auto
termination
  by (relation "measure (\<lambda>(cur, s). length s)") auto

declare fieldsFrom.simps [simp del]

definition Fields :: "string \<Rightarrow> string list" where
  "Fields s = fieldsFrom [] s"

text \<open>\<open>strings.Index(s, sep)\<close>, \<open>None\<close> for \<open>-1\<close>.\<close>

fun Index :: "string \<Rightarrow> string \<Rightarrow> nat option" where
  "Index [] sep = (if sep = [] then Some 0 else None)"
| "Index (c # cs) sep =
     (if HasPrefix (c # cs) sep then Some 0 else map_option Suc (Index cs sep))"

text \<open>\<open>strconv.Atoi\<close>, the value it returns: an optional sign and decimal digits;
  \<open>0\<close> on a syntax error, the nearest 64-bit integer on a range error (\<open>int\<close> is
  taken to be 64 bits wide). \<open>writeCL\<close> drops the error.\<close>

definition isDigit :: "char \<Rightarrow> bool" where
  "isDigit c \<longleftrightarrow> c \<in> set ''0123456789''"

definition digitsVal :: "string \<Rightarrow> int" where
  "digitsVal ds = foldl (\<lambda>n c. n * 10 + (of_char c - 48)) 0 ds"

definition Atoi :: "string \<Rightarrow> int" where
  "Atoi s =
     (let neg = (s \<noteq> [] \<and> hd s = CHR ''-'');
          ds = (if s \<noteq> [] \<and> (hd s = CHR ''+'' \<or> hd s = CHR ''-'') then tl s else s)
      in if ds = [] \<or> \<not> list_all isDigit ds then 0
         else if neg then max (- (2 ^ 63)) (- digitsVal ds)
         else min (2 ^ 63 - 1) (digitsVal ds))"

text \<open>\<open>shortEmail\<close> (show.go): the part of an address before the first \<open>@\<close>.\<close>

definition shortEmail :: "string \<Rightarrow> string" where
  "shortEmail x = takeWhile (\<lambda>c. c \<noteq> CHR ''@'') x"


section \<open>The data of the Gerrit client (internal/gerrit/gerrit.go)\<close>

text \<open>The structures keep the fields the review tool reads. A Go map that is ranged
  over is a list of its entries in the order of that iteration; a map that is
  only looked up or assigned is a function.\<close>

record AccountInfo =
  NumericID :: int
  Name :: string
  Email :: string

record ApprovalInfo = AccountInfo +
  Value :: int

record LabelInfo =
  All :: "ApprovalInfo list"

text \<open>\<open>RevisionInfo\<close>: of the map \<open>Files\<close>, the file names.\<close>

record RevisionInfo =
  PatchSetNumber :: int
  Files :: "string list"

text \<open>\<open>TimeStamp\<close>: the instant, for comparisons, and the UTC calendar fields that
  \<open>Format(time.Stamp)\<close> prints.\<close>

record TimeStamp =
  Instant :: int
  Month :: nat
  Day :: nat
  Hour :: nat
  Minute :: nat
  Second :: nat

record ChangeInfo =
  ChangeID :: string
  ChangeNumber :: int
  Project :: string
  Branch :: string
  Created :: TimeStamp
  Updated :: TimeStamp
  Owner :: AccountInfo
  Labels :: "(string \<times> LabelInfo) list"
  PermittedLabels :: "(string \<times> string list) list"
  CurrentRevision :: string
  Revisions :: "(string \<times> RevisionInfo) list"

text \<open>\<open>SuggestedReviewerInfo\<close> has an account or a group; \<open>Account\<close> is \<open>None\<close> for
  Go's \<open>nil\<close>.\<close>

record SuggestedReviewerInfo =
  Account :: "AccountInfo option"

record ReviewInput =
  reviewMessage :: string
  reviewLabels :: "string \<rightharpoonup> int"
  reviewDrafts :: string

text \<open>\<open>CommentInfo\<close>. \<open>Author\<close> is \<open>None\<close> for a draft. \<open>Updated\<close> is a pointer in Go; the
  server sets it for every comment, and it is kept as a value.\<close>

record CommentInfo =
  PatchSet :: int
  ID :: string
  Path :: string
  Side :: string
  Line :: int
  InReplyTo :: string
  Message :: string
  Updated :: TimeStamp
  Author :: "AccountInfo option"

section \<open>The remote client and the diagnostics\<close>

text \<open>The calls \<open>writeCL\<close> makes on the global \<open>client\<close>, with their arguments. The
  server is a function from the calls made so far and the call being made to
  its reply, so a repeated call may be answered differently. \<open>CreateDraft\<close> and
  \<open>DeleteDraft\<close> are the calls of \<open>writePatchSet\<close>.\<close>

datatype call =
    SuggestReviewers string string int
  | AddReviewer string string
  | DeleteReviewer string string
  | SetReview string string ReviewInput
  | CreateDraft string string CommentInfo
  | DeleteDraft string string string

datatype reply =
    Failed string
  | Suggested "SuggestedReviewerInfo list"
  | Done

type_synonym remote = "call list \<Rightarrow> call \<Rightarrow> reply"

text \<open>What is written to \<open>errbuf\<close>, one constructor per format string:
  \<open>"unknown reviewer: %s\n"\<close>, \<open>"ambiguous reviewer %q:"\<close> with \<open>" %s"\<close> for every
  email, \<open>"add reviewer %s\n"\<close>, \<open>"adding reviewer %s: %v\n"\<close>,
  \<open>"delete reviewer %s\n"\<close>, \<open>"removing reviewer %s: %v\n"\<close>,
  \<open>"unknown summary line: %s\n"\<close>, \<open>"publish review: %s\n"\<close>,
  \<open>"error publishing review: %v\n"\<close>, and for a patch set
  \<open>"unexpected comment before first file:\n\t%s\n"\<close>, \<open>"add draft: %s\n"\<close>,
  \<open>"saving draft: %v\n\t%s\n"\<close>, \<open>"delete draft: %s\n"\<close> and
  \<open>"deleting draft: %v\n\t%s\n"\<close>. Every one writes at least one byte, so the
  deferred function returns an error exactly when the list is not empty.\<close>

datatype diag =
    UnknownReviewer string
  | AmbiguousReviewer string "string list"
  | AddReviewerDry string
  | AddingReviewer string string
  | DeleteReviewerDry string
  | RemovingReviewer string string
  | UnknownSummaryLine string
  | PublishReviewDry ReviewInput
  | ErrorPublishing string
  | UnexpectedComment string
  | AddDraftDry CommentInfo
  | SavingDraft string string
  | DeleteDraftDry CommentInfo
  | DeletingDraft string string

record io =
  errbuf :: "diag list"
  calls :: "call list"

text \<open>\<open>CL\<close> (show.go). \<open>PatchRev\<close> is set by \<open>showPatchSet\<close> whenever it returns a \<open>CL\<close>;
  \<open>BaseRev\<close> is \<open>None\<close> for Go's \<open>nil\<close>.\<close>

record CL =
  ChangeInfo :: ChangeInfo
  Reviewers :: "AccountInfo list"
  Comments :: "(string \<times> CommentInfo list) list"
  PatchID :: string
  PatchRev :: RevisionInfo
  Base :: string
  BaseRev :: "RevisionInfo option"
  Drafts :: "CommentInfo list"

definition invoke :: "remote \<Rightarrow> call \<Rightarrow> 'a io_scheme \<Rightarrow> reply \<times> 'a io_scheme" where
  "invoke remote c st = (remote (calls st) c, st\<lparr>calls := calls st @ [c]\<rparr>)"

definition logf :: "diag \<Rightarrow> 'a io_scheme \<Rightarrow> 'a io_scheme" where
  "logf d st = st\<lparr>errbuf := errbuf st @ [d]\<rparr>"

fun isFailed :: "reply \<Rightarrow> bool" where
  "isFailed (Failed e) = True"
| "isFailed r = False"

fun suggested :: "reply \<Rightarrow> SuggestedReviewerInfo list" where
  "suggested (Suggested acct) = acct"
| "suggested r = []"

section \<open>Reconciling a change summary (writeCL)\<close>

text \<open>The map \<open>have\<close>: short and full email of every known reviewer to the full
  email; \<open>[]\<close> for a key that is not there.\<close>

definition haveOf :: "AccountInfo list \<Rightarrow> string \<Rightarrow> string" where
  "haveOf rs = fold (\<lambda>r h. (h(shortEmail (Email r) := Email r))(Email r := Email r)) rs (\<lambda>k. [])"

definition reviewerQuery :: "string \<Rightarrow> string" where
  "reviewerQuery f =
     (let q = (if CHR ''@'' \<in> set f then f else f @ ''@'')
      in if length q = 2 then q @ ''go'' else q)"

text \<open>The lookup, made a second time when the first fails and the token has at
  least three bytes.\<close>

definition suggest :: "remote \<Rightarrow> string \<Rightarrow> string \<Rightarrow> 'a io_scheme \<Rightarrow> reply \<times> 'a io_scheme" where
  "suggest remote changeID f st =
     (let c = SuggestReviewers changeID (reviewerQuery f) 10;
          (r, st1) = invoke remote c st
      in if isFailed r \<and> 3 \<le> length f then invoke remote c st1 else (r, st1))"

text \<open>The loop that counts the candidates of the preferred domains in \<open>n\<close> and
  leaves the chosen email in \<open>best\<close>.\<close>

definition pickStep :: "SuggestedReviewerInfo \<Rightarrow> nat \<times> string \<Rightarrow> nat \<times> string" where
  "pickStep r nb =
     (case Account r of
        None \<Rightarrow> nb
      | Some a \<Rightarrow>
          (let best1 = (if snd nb = [] then Email a else snd nb)
           in if HasSuffix (Email a) ''@golang.org'' \<or> HasSuffix (Email a) ''@google.com''
              then (fst nb + 1, Email a) else (fst nb, best1)))"

definition pickBest :: "SuggestedReviewerInfo list \<Rightarrow> nat \<times> string" where
  "pickBest acct = fold pickStep acct (0, [])"

definition emails :: "SuggestedReviewerInfo list \<Rightarrow> string list" where
  "emails acct = map Email (List.map_filter Account acct)"

text \<open>The body of \<open>for _, f := range strings.Fields(value)\<close>.\<close>

definition reviewerToken ::
  "bool \<Rightarrow> remote \<Rightarrow> CL \<Rightarrow> (string \<Rightarrow> string) \<Rightarrow> string
    \<Rightarrow> (string \<Rightarrow> bool) \<times> 'a io_scheme \<Rightarrow> (string \<Rightarrow> bool) \<times> 'a io_scheme" where
  "reviewerToken flagN remote old have f ks =
     (let kept = fst ks; st = snd ks in
      if have f \<noteq> [] then (kept(have f := True), st)
      else
        let (r, st1) = suggest remote (ChangeID (ChangeInfo old)) f st;
            acct = suggested r
        in if isFailed r \<or> acct = [] then (kept, logf (UnknownReviewer f) st1)
           else
             let n = fst (pickBest acct); best = snd (pickBest acct)
             in if 1 < n \<or> n = 0 \<and> 1 < length acct
                then (kept, logf (AmbiguousReviewer f (emails acct)) st1)
                else if flagN then (kept(best := True), logf (AddReviewerDry best) st1)
                else
                  let (ra, st2) = invoke remote (AddReviewer (ChangeID (ChangeInfo old)) best) st1
                  in case ra of
                       Failed e \<Rightarrow> (kept, logf (AddingReviewer best e) st2)
                     | _ \<Rightarrow> (kept(best := True), st2))"

text \<open>The loop that removes the known reviewers that were not kept.\<close>

fun deleteReviewers ::
  "bool \<Rightarrow> remote \<Rightarrow> string \<Rightarrow> (string \<Rightarrow> bool) \<Rightarrow> AccountInfo list \<Rightarrow> 'a io_scheme \<Rightarrow> 'a io_scheme" where
  "deleteReviewers flagN remote changeID kept [] st = st"
| "deleteReviewers flagN remote changeID kept (r # rs) st =
     deleteReviewers flagN remote changeID kept rs
       (if \<not> kept (Email r) then
          (if flagN then logf (DeleteReviewerDry (Email r)) st
           else
             let (rd, st1) = invoke remote (DeleteReviewer changeID (Email r)) st
             in case rd of Failed e \<Rightarrow> logf (RemovingReviewer (Email r) e) st1 | _ \<Rightarrow> st1)
        else st)"

definition keptOf ::
  "bool \<Rightarrow> remote \<Rightarrow> CL \<Rightarrow> string \<Rightarrow> 'a io_scheme \<Rightarrow> (string \<Rightarrow> bool) \<times> 'a io_scheme" where
  "keptOf flagN remote old val st =
     fold (reviewerToken flagN remote old (haveOf (Reviewers old))) (Fields val)
       ((\<lambda>k. False)(Email (Owner (ChangeInfo old)) := True), st)"

definition reviewersLine :: "bool \<Rightarrow> remote \<Rightarrow> CL \<Rightarrow> string \<Rightarrow> 'a io_scheme \<Rightarrow> 'a io_scheme" where
  "reviewersLine flagN remote old val st =
     deleteReviewers flagN remote (ChangeID (ChangeInfo old))
       (fst (keptOf flagN remote old val st)) (Reviewers old) (snd (keptOf flagN remote old val st))"

text \<open>A label line: every token that equals a trimmed permitted value sets the
  vote of the label.\<close>

definition labelLine :: "string \<Rightarrow> string \<Rightarrow> string list \<Rightarrow> (string \<rightharpoonup> int) \<Rightarrow> (string \<rightharpoonup> int)" where
  "labelLine key val allowed m =
     fold (\<lambda>vote m. fold (\<lambda>x m. if vote = TrimSpace x then m(key \<mapsto> Atoi vote) else m) allowed m)
       (Fields val) m"

record scan = io +
  labels :: "string \<rightharpoonup> int"
  parseError :: bool
  off :: nat

text \<open>\<open>key\<close> and \<open>value\<close> of a trimmed line: the trimmed text before and after the first
  colon.\<close>

definition lineKey :: "string \<Rightarrow> string" where
  "lineKey line = TrimSpace (takeWhile (\<lambda>c. c \<noteq> CHR '':'') line)"

definition lineValue :: "string \<Rightarrow> string" where
  "lineValue line = TrimSpace (drop 1 (dropWhile (\<lambda>c. c \<noteq> CHR '':'') line))"

definition permitted :: "CL \<Rightarrow> string \<Rightarrow> string list" where
  "permitted old key = (case map_of (PermittedLabels (ChangeInfo old)) key of None \<Rightarrow> [] | Some xs \<Rightarrow> xs)"

text \<open>The body of the loop over the lines; \<open>None\<close> is \<open>break\<close>.\<close>

definition summaryLine :: "bool \<Rightarrow> remote \<Rightarrow> CL \<Rightarrow> string \<Rightarrow> scan \<Rightarrow> scan option" where
  "summaryLine flagN remote old origLine st0 =
     (let line = TrimSpace origLine in
      if line = [] \<or> HasPrefix line ''#'' then Some (st0\<lparr>off := off st0 + length origLine\<rparr>)
      else if CHR '':'' \<notin> set line then None
      else
        let st = st0\<lparr>off := off st0 + length origLine\<rparr>;
            key = lineKey line;
            val = lineValue line
        in if key = ''Owner'' then Some st
           else if key = ''Reviewers'' then Some (reviewersLine flagN remote old val st)
           else if key \<in> fst ` set (Labels (ChangeInfo old)) then
             Some (st\<lparr>labels := labelLine key val (permitted old key) (labels st)\<rparr>)
           else Some ((logf (UnknownSummaryLine line) st)\<lparr>parseError := True\<rparr>))"

fun scanLines :: "bool \<Rightarrow> remote \<Rightarrow> CL \<Rightarrow> string list \<Rightarrow> scan \<Rightarrow> scan" where
  "scanLines flagN remote old [] st = st"
| "scanLines flagN remote old (l # ls) st =
     (case summaryLine flagN remote old l st of
        None \<Rightarrow> st
      | Some st' \<Rightarrow> scanLines flagN remote old ls st')"

text \<open>The review message: the text from \<open>off\<close> to the first \<open>"\nPatch Set "\<close>, when
  that marker is not before \<open>off\<close>; the placeholder stands for no message.\<close>

definition reviewComment :: "string \<Rightarrow> nat \<Rightarrow> string" where
  "reviewComment sdata k =
     (let comment = (case Index sdata ''\<newline>Patch Set '' of
                       None \<Rightarrow> []
                     | Some i \<Rightarrow> if k \<le> i then TrimSpace (take (i - k) (drop k sdata)) else [])
      in if comment = ''<optional comment here>'' then [] else comment)"

text \<open>\<open>writeCL\<close>. The result is what was written to \<open>errbuf\<close> and the calls made;
  the Go function returns an error exactly when \<open>errbuf\<close> is not empty.\<close>

definition writeCL :: "bool \<Rightarrow> remote \<Rightarrow> CL \<Rightarrow> string \<Rightarrow> io" where
  "writeCL flagN remote old updated =
     (let st = scanLines flagN remote old (SplitAfterNL updated)
                 \<lparr>errbuf = [], calls = [], labels = Map.empty, parseError = False, off = 0\<rparr>;
          out = \<lparr>errbuf = errbuf st, calls = calls st\<rparr>
      in if parseError st then out
         else
           let review = \<lparr>reviewMessage = reviewComment updated (off st), reviewLabels = labels st,
                         reviewDrafts = ''PUBLISH_ALL_REVISIONS''\<rparr>
           in if flagN then logf (PublishReviewDry review) out
              else
                let (r, out1) = invoke remote (SetReview (ChangeID (ChangeInfo old))
                                   (CurrentRevision (ChangeInfo old)) review) out
                in case r of Failed e \<Rightarrow> logf (ErrorPublishing e) out1 | _ \<Rightarrow> out1)"

section \<open>Properties of the change summary\<close>


lemma vote_fold:
  "fold (\<lambda>x m. if vote = TrimSpace x then m(key \<mapsto> v) else m) allowed m
     = (if vote \<in> TrimSpace ` set allowed then m(key \<mapsto> v) else m)"
  by (induction allowed arbitrary: m) auto

lemma labelLine_last:
  "labelLine key val allowed m =
     (case rev (filter (\<lambda>v. v \<in> TrimSpace ` set allowed) (Fields val)) of
        [] \<Rightarrow> m
      | v # _ \<Rightarrow> m(key \<mapsto> Atoi v))"
proof -
  have "fold (\<lambda>vote m. fold (\<lambda>x m. if vote = TrimSpace x then m(key \<mapsto> Atoi vote) else m) allowed m) vs m
      = (case rev (filter (\<lambda>v. v \<in> TrimSpace ` set allowed) vs) of [] \<Rightarrow> m | v # _ \<Rightarrow> m(key \<mapsto> Atoi v))"
    for vs
  proof (induction vs rule: rev_induct)
    case Nil
    then show ?case by simp
  next
    case (snoc v vs)
    then show ?case by (auto simp: vote_fold split: list.splits)
  qed
  then show ?thesis by (simp add: labelLine_def)
qed

definition preferred :: "AccountInfo \<Rightarrow> bool" where
  "preferred a \<longleftrightarrow> HasSuffix (Email a) ''@golang.org'' \<or> HasSuffix (Email a) ''@google.com''"

lemma preferred_nonempty: "preferred a \<Longrightarrow> Email a \<noteq> []"
  by (auto simp: preferred_def HasSuffix_def)

lemma pickBest_snoc: "pickBest (acct @ [r]) = pickStep r (pickBest acct)"
  by (simp add: pickBest_def)

lemma pickBest_count:
  "fst (pickBest acct) = length (filter preferred (List.map_filter Account acct))"
proof (induction acct rule: rev_induct)
  case Nil
  then show ?case by (simp add: pickBest_def map_filter_simps)
next
  case (snoc r acct)
  then show ?case
    by (cases "Account r") (simp_all add: pickBest_snoc pickStep_def map_filter_def preferred_def Let_def)
qed

lemma pickBest_preferred:
  "filter preferred (List.map_filter Account acct) \<noteq> [] \<Longrightarrow>
   snd (pickBest acct) = Email (last (filter preferred (List.map_filter Account acct)))"
proof (induction acct rule: rev_induct)
  case Nil
  then show ?case by (simp add: map_filter_simps)
next
  case (snoc r acct)
  show ?case
  proof (cases "Account r")
    case None
    with snoc show ?thesis by (simp add: pickBest_snoc pickStep_def map_filter_def)
  next
    case (Some a)
    show ?thesis
    proof (cases "preferred a")
      case True
      then show ?thesis using Some
        by (simp add: pickBest_snoc pickStep_def map_filter_def preferred_def Let_def)
    next
      case False
      with snoc.prems Some have ne: "filter preferred (List.map_filter Account acct) \<noteq> []"
        by (simp add: map_filter_def)
      then have "last (filter preferred (List.map_filter Account acct))
          \<in> set (filter preferred (List.map_filter Account acct))" by (rule last_in_set)
      then have "preferred (last (filter preferred (List.map_filter Account acct)))" by simp
      then have "Email (last (filter preferred (List.map_filter Account acct))) \<noteq> []"
        by (rule preferred_nonempty)
      with snoc.IH [OF ne] have "snd (pickBest acct) \<noteq> []" by simp
      with snoc.IH [OF ne] False Some show ?thesis
        by (simp add: pickBest_snoc pickStep_def map_filter_def preferred_def Let_def)
    qed
  qed
qed

lemma pickBest_single:
  "\<not> preferred a \<Longrightarrow> pickBest [\<lparr>Account = Some a\<rparr>] = (0, Email a)"
  by (simp add: pickBest_def pickStep_def preferred_def)

text \<open>A change owned by bob with reviewers alice and bob and one label, and a
  server that knows carol, for the examples.\<close>

definition exampleCL :: CL where
  "exampleCL =
     \<lparr>ChangeInfo =
        \<lparr>ChangeID = ''go~master~I1'', ChangeNumber = 1, Project = ''go'', Branch = ''master'',
         Created = \<lparr>Instant = 1, Month = 1, Day = 2, Hour = 15, Minute = 4, Second = 5\<rparr>,
         Updated = \<lparr>Instant = 2, Month = 1, Day = 3, Hour = 9, Minute = 30, Second = 0\<rparr>,
         Owner = \<lparr>NumericID = 1, Name = ''Bob'', Email = ''bob@x.org''\<rparr>,
         Labels = [(''Code-Review'', \<lparr>All = []\<rparr>)],
         PermittedLabels = [(''Code-Review'', [''-1'', '' 0'', ''+1''])],
         CurrentRevision = ''r1'', Revisions = []\<rparr>,
      Reviewers = [\<lparr>NumericID = 2, Name = ''Alice'', Email = ''alice@x.org''\<rparr>,
                   \<lparr>NumericID = 1, Name = ''Bob'', Email = ''bob@x.org''\<rparr>],
      Comments = [], PatchID = [], PatchRev = \<lparr>PatchSetNumber = 1, Files = []\<rparr>, Base = [], BaseRev = None,
      Drafts = []\<rparr>"

definition exampleServer :: remote where
  "exampleServer history c =
     (case c of
        SuggestReviewers i q n \<Rightarrow>
          Suggested [\<lparr>Account = Some \<lparr>NumericID = 3, Name = ''Carol'', Email = ''carol@x.org''\<rparr>\<rparr>]
      | _ \<Rightarrow> Done)"

definition scan0 :: scan where
  "scan0 = \<lparr>errbuf = [], calls = [], labels = Map.empty, parseError = False, off = 0\<rparr>"

text \<open>
  Claim C4, as amended. A summary line whose key names a label of the change
  changes nothing but the offset and the vote of that label: its value is cut
  into fields, a field counts when it equals a permitted value of the label after
  that value is trimmed, and the vote recorded is that of the last field that
  counts (\<open>strconv.Atoi\<close> of it); fields that do not count are dropped, nothing is
  written to \<open>errbuf\<close>, no call is made, and with no field that counts the vote
  is left as it was. The witness is the line \<open>Code-Review: +7 +1\<close>, which records
  the single vote \<open>+1\<close>.
\<close>

theorem label_line_vote:
  assumes "TrimSpace origLine \<noteq> []" and "\<not> HasPrefix (TrimSpace origLine) ''#''"
    and "CHR '':'' \<in> set (TrimSpace origLine)"
    and "lineKey (TrimSpace origLine) = key" and "key \<noteq> ''Owner''" and "key \<noteq> ''Reviewers''"
    and "key \<in> fst ` set (Labels (ChangeInfo old))"
  shows "summaryLine flagN remote old origLine st =
     Some (st\<lparr>off := off st + length origLine,
              labels :=
                (case rev (filter (\<lambda>v. v \<in> TrimSpace ` set (permitted old key))
                             (Fields (lineValue (TrimSpace origLine)))) of
                   [] \<Rightarrow> labels st
                 | v # _ \<Rightarrow> (labels st)(key \<mapsto> Atoi v))\<rparr>)"
  using assms by (simp add: summaryLine_def Let_def labelLine_last split: list.splits)
text \<open>The strings of the examples, evaluated.\<close>

lemma vote_strings:
  "TrimSpace ''Code-Review: +7 +1\<newline>'' = ''Code-Review: +7 +1''"
  "lineKey ''Code-Review: +7 +1'' = ''Code-Review''"
  "Fields (lineValue ''Code-Review: +7 +1'') = [''+7'', ''+1'']"
  "TrimSpace ''Code-Review: +1 -1\<newline>'' = ''Code-Review: +1 -1''"
  "lineKey ''Code-Review: +1 -1'' = ''Code-Review''"
  "Fields (lineValue ''Code-Review: +1 -1'') = [''+1'', ''-1'']"
  "map TrimSpace [''-1'', '' 0'', ''+1''] = [''-1'', ''0'', ''+1'']"
  "Atoi ''+1'' = 1" "Atoi ''-1'' = - 1"
  by code_simp+

lemma permitted_example: "permitted exampleCL ''Code-Review'' = [''-1'', '' 0'', ''+1'']"
  by (simp add: permitted_def exampleCL_def)

lemma labels_example: "fst ` set (Labels (ChangeInfo exampleCL)) = {''Code-Review''}"
  by (simp add: exampleCL_def)

theorem label_line_vote_witness:
  "summaryLine False exampleServer exampleCL ''Code-Review: +7 +1\<newline>'' scan0
     = Some (scan0\<lparr>off := 19, labels := [''Code-Review'' \<mapsto> 1]\<rparr>)"
proof -
  have votes: "TrimSpace ` set [''-1'', '' 0'', ''+1''] = {''-1'', ''0'', ''+1''}"
    using vote_strings(7) by (metis list.set_map list.simps(15) empty_set)
  have "summaryLine False exampleServer exampleCL ''Code-Review: +7 +1\<newline>'' scan0 =
     Some (scan0\<lparr>off := off scan0 + length ''Code-Review: +7 +1\<newline>'',
              labels :=
                (case rev (filter (\<lambda>v. v \<in> TrimSpace ` set (permitted exampleCL ''Code-Review''))
                             (Fields (lineValue (TrimSpace ''Code-Review: +7 +1\<newline>'')))) of
                   [] \<Rightarrow> labels scan0
                 | v # _ \<Rightarrow> (labels scan0)(''Code-Review'' \<mapsto> Atoi v))\<rparr>)"
    by (rule label_line_vote) (simp_all add: vote_strings(1,2) labels_example)
  then show ?thesis
    unfolding vote_strings(1,3) permitted_example votes
    by (simp add: vote_strings(8) scan0_def)
qed

text \<open>On \<open>Code-Review: +1 -1\<close> the first field that counts is \<open>+1\<close>; the vote
  recorded is \<open>-1\<close>.\<close>

theorem label_first_match_counterexample:
  "Fields (lineValue (TrimSpace ''Code-Review: +1 -1\<newline>'')) = [''+1'', ''-1'']
   \<and> map_option (\<lambda>s. labels s ''Code-Review'')
        (summaryLine False exampleServer exampleCL ''Code-Review: +1 -1\<newline>'' scan0) = Some (Some (- 1))"
proof -
  have votes: "TrimSpace ` set [''-1'', '' 0'', ''+1''] = {''-1'', ''0'', ''+1''}"
    using vote_strings(7) by (metis list.set_map list.simps(15) empty_set)
  have "labelLine ''Code-Review'' (lineValue ''Code-Review: +1 -1'') [''-1'', '' 0'', ''+1''] Map.empty
      = [''Code-Review'' \<mapsto> - 1]"
    unfolding labelLine_last vote_strings(6) votes by (simp add: vote_strings(8,9))
  then have "map_option (\<lambda>s. labels s ''Code-Review'')
        (summaryLine False exampleServer exampleCL ''Code-Review: +1 -1\<newline>'' scan0) = Some (Some (- 1))"
    by (simp add: summaryLine_def Let_def vote_strings(4,5) labels_example permitted_example scan0_def)
  then show ?thesis unfolding vote_strings(4,6) by simp
qed

lemma suggest_calls:
  "calls (snd (suggest remote changeID f st)) =
     calls st @ (if isFailed (remote (calls st) (SuggestReviewers changeID (reviewerQuery f) 10)) \<and> 3 \<le> length f
                 then [SuggestReviewers changeID (reviewerQuery f) 10, SuggestReviewers changeID (reviewerQuery f) 10]
                 else [SuggestReviewers changeID (reviewerQuery f) 10])"
  by (simp add: suggest_def invoke_def Let_def)

lemma suggest_errbuf: "errbuf (snd (suggest remote changeID f st)) = errbuf st"
  by (simp add: suggest_def invoke_def Let_def)

lemma reviewerToken_cases:
  assumes "have f = []" and "suggest remote (ChangeID (ChangeInfo old)) f st = (r, st1)"
  shows "reviewerToken flagN remote old have f (kept, st) =
     (if isFailed r \<or> suggested r = [] then (kept, logf (UnknownReviewer f) st1)
      else if 1 < fst (pickBest (suggested r))
              \<or> fst (pickBest (suggested r)) = 0 \<and> 1 < length (suggested r)
      then (kept, logf (AmbiguousReviewer f (emails (suggested r))) st1)
      else if flagN
      then (kept(snd (pickBest (suggested r)) := True), logf (AddReviewerDry (snd (pickBest (suggested r)))) st1)
      else (case remote (calls st1) (AddReviewer (ChangeID (ChangeInfo old)) (snd (pickBest (suggested r)))) of
              Failed e \<Rightarrow>
                (kept, logf (AddingReviewer (snd (pickBest (suggested r))) e)
                   (st1\<lparr>calls := calls st1 @ [AddReviewer (ChangeID (ChangeInfo old)) (snd (pickBest (suggested r)))]\<rparr>))
            | _ \<Rightarrow>
                (kept(snd (pickBest (suggested r)) := True),
                 st1\<lparr>calls := calls st1 @ [AddReviewer (ChangeID (ChangeInfo old)) (snd (pickBest (suggested r)))]\<rparr>)))"
  using assms by (simp add: reviewerToken_def Let_def invoke_def)

lemma suggested_not_failed: "suggested r \<noteq> [] \<Longrightarrow> \<not> isFailed r"
  by (cases r) auto
definition candidate :: "string \<Rightarrow> SuggestedReviewerInfo" where
  "candidate e = \<lparr>Account = Some \<lparr>NumericID = 0, Name = [], Email = e\<rparr>\<rparr>"

definition answering :: "SuggestedReviewerInfo list \<Rightarrow> remote" where
  "answering acct history c = (case c of SuggestReviewers i q n \<Rightarrow> Suggested acct | _ \<Rightarrow> Done)"

definition io0 :: io where
  "io0 = \<lparr>errbuf = [], calls = []\<rparr>"

lemmas eval_reviewers = suggest_def invoke_def reviewerQuery_def answering_def candidate_def io0_def
  haveOf_def shortEmail_def exampleCL_def preferred_def HasSuffix_def map_filter_simps logf_def
text \<open>A suggestion that is a group: \<open>Account\<close> is nil.\<close>

definition groupEntry :: SuggestedReviewerInfo where
  "groupEntry = \<lparr>Account = None\<rparr>"

text \<open>
  Claim C5, where the reply of the lookup holds a group. The token \<open>team\<close> matches
  no known reviewer and the lookup replies with one group and no account: there is
  no candidate, and the claim asks for an \<open>unknown reviewer\<close> diagnostic and no add
  call; the code logs nothing and calls \<open>AddReviewer\<close> with the empty reviewer. The
  token \<open>carol\<close> gets a group and the account \<open>carol@x.org\<close>, which is of no
  preferred domain: there is exactly one candidate, and the claim asks for it to be
  chosen; the code logs \<open>ambiguous reviewer\<close> and adds nobody.
\<close>

theorem reviewer_group_entry:
  "haveOf (Reviewers exampleCL) ''team'' = [] \<and> haveOf (Reviewers exampleCL) ''carol'' = []
   \<and> snd (reviewerToken False (answering [groupEntry]) exampleCL (haveOf (Reviewers exampleCL))
          ''team'' (\<lambda>k. False, io0))
       = \<lparr>errbuf = [],
          calls = [SuggestReviewers ''go~master~I1'' ''team@'' 10, AddReviewer ''go~master~I1'' []]\<rparr>
   \<and> snd (reviewerToken False (answering [groupEntry, candidate ''carol@x.org'']) exampleCL
          (haveOf (Reviewers exampleCL)) ''carol'' (\<lambda>k. False, io0))
       = \<lparr>errbuf = [AmbiguousReviewer ''carol'' [''carol@x.org'']],
          calls = [SuggestReviewers ''go~master~I1'' ''carol@'' 10]\<rparr>"
  by (simp add: reviewerToken_def eval_reviewers groupEntry_def pickBest_def pickStep_def emails_def
      Let_def)

lemma reviewerToken_known:
  "have f \<noteq> [] \<Longrightarrow> reviewerToken flagN remote old have f (kept, st) = (kept(have f := True), st)"
  by (simp add: reviewerToken_def)

text \<open>
  Claim C8, as amended. The query is the token, with \<open>@\<close> appended when the token
  has none, and then with the hint \<open>go\<close> appended exactly when that text is two
  bytes long: a token of one byte other than \<open>@\<close>, or a token of two bytes with an
  \<open>@\<close>. The lookup asks for 10 results, and is made a second time exactly when
  the first fails and the token has at least 3 bytes. A token that needs the
  lookup makes these calls and then at most one add; a token that matches a
  known reviewer makes no call.
\<close>

theorem reviewer_lookup_query:
  "reviewerQuery f =
      (if CHR ''@'' \<in> set f then f else f @ ''@'')
      @ (if length f = 1 \<and> f \<noteq> ''@'' \<or> length f = 2 \<and> CHR ''@'' \<in> set f then ''go'' else [])
   \<and> calls (snd (suggest remote changeID f st)) =
       calls st @ (if isFailed (remote (calls st) (SuggestReviewers changeID (reviewerQuery f) 10)) \<and> 3 \<le> length f
                   then [SuggestReviewers changeID (reviewerQuery f) 10, SuggestReviewers changeID (reviewerQuery f) 10]
                   else [SuggestReviewers changeID (reviewerQuery f) 10])
   \<and> (have f = [] \<longrightarrow>
        (\<exists>more. calls (snd (reviewerToken flagN remote old have f (kept, st)))
                  = calls (snd (suggest remote (ChangeID (ChangeInfo old)) f st)) @ more
               \<and> (more = [] \<or> (\<exists>best. more = [AddReviewer (ChangeID (ChangeInfo old)) best]))))
   \<and> (have f \<noteq> [] \<longrightarrow> calls (snd (reviewerToken flagN remote old have f (kept, st))) = calls st)"
proof (intro conjI impI)
  show "reviewerQuery f =
      (if CHR ''@'' \<in> set f then f else f @ ''@'')
      @ (if length f = 1 \<and> f \<noteq> ''@'' \<or> length f = 2 \<and> CHR ''@'' \<in> set f then ''go'' else [])"
  proof (cases "CHR ''@'' \<in> set f")
    case True
    then have "length f = 1 \<longrightarrow> f = ''@''" by (cases f) auto
    with True show ?thesis by (auto simp: reviewerQuery_def)
  next
    case False
    then have "f \<noteq> ''@''" by auto
    with False show ?thesis by (auto simp: reviewerQuery_def)
  qed
next
  show "calls (snd (suggest remote changeID f st)) =
       calls st @ (if isFailed (remote (calls st) (SuggestReviewers changeID (reviewerQuery f) 10)) \<and> 3 \<le> length f
                   then [SuggestReviewers changeID (reviewerQuery f) 10, SuggestReviewers changeID (reviewerQuery f) 10]
                   else [SuggestReviewers changeID (reviewerQuery f) 10])"
    by (rule suggest_calls)
next
  assume known: "have f = []"
  obtain r st1 where lookup: "suggest remote (ChangeID (ChangeInfo old)) f st = (r, st1)"
    by (cases "suggest remote (ChangeID (ChangeInfo old)) f st") auto
  note tok = reviewerToken_cases [of "have" f remote old st r st1 flagN kept, OF known lookup]
  have "calls (snd (reviewerToken flagN remote old have f (kept, st))) = calls st1
      \<or> calls (snd (reviewerToken flagN remote old have f (kept, st)))
           = calls st1 @ [AddReviewer (ChangeID (ChangeInfo old)) (snd (pickBest (suggested r)))]"
    unfolding tok by (simp add: logf_def split: reply.splits)
  then show "\<exists>more. calls (snd (reviewerToken flagN remote old have f (kept, st)))
                  = calls (snd (suggest remote (ChangeID (ChangeInfo old)) f st)) @ more
               \<and> (more = [] \<or> (\<exists>best. more = [AddReviewer (ChangeID (ChangeInfo old)) best]))"
    unfolding lookup by auto
next
  assume "have f \<noteq> []"
  then show "calls (snd (reviewerToken flagN remote old have f (kept, st))) = calls st"
    by (simp add: reviewerToken_known)
qed

definition failing :: remote where
  "failing history c = Failed ''timeout''"

theorem reviewer_lookup_query_witness:
  "haveOf (Reviewers exampleCL) ''carol'' = []
   \<and> (\<exists>more. calls (snd (reviewerToken False failing exampleCL (haveOf (Reviewers exampleCL)) ''carol'' (\<lambda>k. False, io0)))
      = [SuggestReviewers ''go~master~I1'' ''carol@'' 10, SuggestReviewers ''go~master~I1'' ''carol@'' 10] @ more)
   \<and> haveOf (Reviewers exampleCL) ''alice'' \<noteq> []
   \<and> calls (snd (reviewerToken False failing exampleCL (haveOf (Reviewers exampleCL)) ''alice'' (\<lambda>k. False, io0))) = []"
proof -
  let ?have = "haveOf (Reviewers exampleCL)"
  let ?K = "\<lambda>k::string. False"
  have a: "?have ''carol'' = []" and b: "?have ''alice'' \<noteq> []"
    by (simp_all add: eval_reviewers)
  note t = reviewer_lookup_query [of "''carol''" failing "''go~master~I1''" io0 ?have False exampleCL ?K]
  note u = reviewer_lookup_query [of "''alice''" failing "''go~master~I1''" io0 ?have False exampleCL ?K]
  have c: "calls (snd (suggest failing (ChangeID (ChangeInfo exampleCL)) ''carol'' io0))
      = [SuggestReviewers ''go~master~I1'' ''carol@'' 10, SuggestReviewers ''go~master~I1'' ''carol@'' 10]"
    using t by (simp add: failing_def io0_def exampleCL_def)
  from t a obtain more where "calls (snd (reviewerToken False failing exampleCL ?have ''carol'' (?K, io0)))
      = calls (snd (suggest failing (ChangeID (ChangeInfo exampleCL)) ''carol'' io0)) @ more"
    by blast
  then have d: "\<exists>more. calls (snd (reviewerToken False failing exampleCL ?have ''carol'' (?K, io0)))
      = [SuggestReviewers ''go~master~I1'' ''carol@'' 10, SuggestReviewers ''go~master~I1'' ''carol@'' 10] @ more"
    unfolding c by blast
  have e: "calls (snd (reviewerToken False failing exampleCL ?have ''alice'' (?K, io0))) = []"
    using u b by (simp add: io0_def)
  from a b d e show ?thesis by blast
qed

text \<open>The token \<open>rs\<close> has two characters before the \<open>@\<close> and gets no hint; the
  token \<open>r\<close> has one and gets it.\<close>

theorem domain_hint_counterexample:
  "reviewerQuery ''rs'' = ''rs@'' \<and> reviewerQuery ''r'' = ''r@go''
   \<and> calls (snd (suggest exampleServer ''go~master~I1'' ''rs'' io0)) = [SuggestReviewers ''go~master~I1'' ''rs@'' 10]"
  by (simp add: reviewerQuery_def suggest_def invoke_def exampleServer_def io0_def)


fun lookupOrAdd :: "call \<Rightarrow> bool" where
  "lookupOrAdd (SuggestReviewers i q n) = True"
| "lookupOrAdd (AddReviewer i e) = True"
| "lookupOrAdd c = False"

fun tokenNote :: "diag \<Rightarrow> bool" where
  "tokenNote (UnknownReviewer f) = True"
| "tokenNote (AmbiguousReviewer f es) = True"
| "tokenNote (AddReviewerDry e) = True"
| "tokenNote (AddingReviewer e m) = True"
| "tokenNote d = False"

fun removalOf :: "(string \<Rightarrow> bool) \<Rightarrow> call \<Rightarrow> bool" where
  "removalOf kept (DeleteReviewer i e) = (\<not> kept e)"
| "removalOf kept c = False"

fun removalNote :: "(string \<Rightarrow> bool) \<Rightarrow> diag \<Rightarrow> bool" where
  "removalNote kept (DeleteReviewerDry e) = (\<not> kept e)"
| "removalNote kept (RemovingReviewer e m) = (\<not> kept e)"
| "removalNote kept d = False"

text \<open>A token only grows \<open>kept\<close>, and appends lookups, adds and their notes.\<close>

lemma reviewerToken_appends:
  "\<exists>kept' es cs. reviewerToken flagN remote old have f (kept, st)
       = (kept', st\<lparr>errbuf := errbuf st @ es, calls := calls st @ cs\<rparr>)
     \<and> (\<forall>e. kept e \<longrightarrow> kept' e) \<and> list_all tokenNote es \<and> list_all lookupOrAdd cs"
proof (cases "have f = []")
  case False
  then have "reviewerToken flagN remote old have f (kept, st)
      = (kept(have f := True), st\<lparr>errbuf := errbuf st @ [], calls := calls st @ []\<rparr>)"
    by (simp add: reviewerToken_known)
  then show ?thesis by (intro exI [of _ "kept(have f := True)"] exI [of _ "[]"]) simp
next
  case True
  let ?c = "SuggestReviewers (ChangeID (ChangeInfo old)) (reviewerQuery f) 10"
  obtain r st1 where lookup: "suggest remote (ChangeID (ChangeInfo old)) f st = (r, st1)"
    by (cases "suggest remote (ChangeID (ChangeInfo old)) f st") auto
  have "\<exists>cs1. st1 = st\<lparr>calls := calls st @ cs1\<rparr> \<and> list_all lookupOrAdd cs1"
  proof (cases "isFailed (remote (calls st) ?c) \<and> 3 \<le> length f")
    case True
    then have "st1 = st\<lparr>calls := calls st @ [?c, ?c]\<rparr>"
      using lookup by (auto simp: suggest_def invoke_def Let_def)
    then show ?thesis by (intro exI [of _ "[?c, ?c]"]) simp
  next
    case False
    then have "st1 = st\<lparr>calls := calls st @ [?c]\<rparr>"
      using lookup by (auto simp: suggest_def invoke_def Let_def)
    then show ?thesis by (intro exI [of _ "[?c]"]) simp
  qed
  then obtain cs1 where st1: "st1 = st\<lparr>calls := calls st @ cs1\<rparr>" and cs1: "list_all lookupOrAdd cs1"
    by blast
  note tok = reviewerToken_cases [of "have" f remote old st r st1 flagN kept, OF True lookup]
  let ?best = "snd (pickBest (suggested r))"
  let ?add = "AddReviewer (ChangeID (ChangeInfo old)) ?best"
  let ?res = "reviewerToken flagN remote old have f (kept, st)"
  have shape: "(\<exists>d. tokenNote d \<and> ?res = (kept, logf d st1))
      \<or> ?res = (kept(?best := True), logf (AddReviewerDry ?best) st1)
      \<or> (\<exists>e. ?res = (kept, logf (AddingReviewer ?best e) (st1\<lparr>calls := calls st1 @ [?add]\<rparr>)))
      \<or> ?res = (kept(?best := True), st1\<lparr>calls := calls st1 @ [?add]\<rparr>)"
  proof (cases "isFailed r \<or> suggested r = []")
    case True
    then have "?res = (kept, logf (UnknownReviewer f) st1)" by (simp add: tok)
    moreover have "tokenNote (UnknownReviewer f)" by simp
    ultimately show ?thesis by blast
  next
    case ok: False
    show ?thesis
    proof (cases "1 < fst (pickBest (suggested r))
              \<or> fst (pickBest (suggested r)) = 0 \<and> 1 < length (suggested r)")
      case True
      then have "?res = (kept, logf (AmbiguousReviewer f (emails (suggested r))) st1)"
        using ok by (simp add: tok)
      moreover have "tokenNote (AmbiguousReviewer f (emails (suggested r)))" by simp
      ultimately show ?thesis by blast
    next
      case unique: False
      show ?thesis
      proof (cases flagN)
        case True
        show ?thesis unfolding tok using ok unique True by auto
      next
        case False
        show ?thesis unfolding tok using ok unique False
          by (cases "remote (calls st1) ?add") auto
      qed
    qed
  qed
  then consider (a) d where "tokenNote d" "?res = (kept, logf d st1)"
    | (b) "?res = (kept(?best := True), logf (AddReviewerDry ?best) st1)"
    | (c) e where "?res = (kept, logf (AddingReviewer ?best e) (st1\<lparr>calls := calls st1 @ [?add]\<rparr>))"
    | (d) "?res = (kept(?best := True), st1\<lparr>calls := calls st1 @ [?add]\<rparr>)"
    by blast
  then show ?thesis
  proof cases
    case a
    then have "reviewerToken flagN remote old have f (kept, st)
        = (kept, st\<lparr>errbuf := errbuf st @ [d], calls := calls st @ cs1\<rparr>)"
      by (simp add: st1 logf_def)
    with a(1) cs1 show ?thesis by (intro exI [of _ kept] exI [of _ "[d]"] exI [of _ cs1]) simp
  next
    case b
    then have "reviewerToken flagN remote old have f (kept, st)
        = (kept(?best := True), st\<lparr>errbuf := errbuf st @ [AddReviewerDry ?best], calls := calls st @ cs1\<rparr>)"
      by (simp add: st1 logf_def)
    with cs1 show ?thesis
      by (intro exI [of _ "kept(?best := True)"] exI [of _ "[AddReviewerDry ?best]"] exI [of _ cs1]) simp
  next
    case c
    then have "reviewerToken flagN remote old have f (kept, st)
        = (kept, st\<lparr>errbuf := errbuf st @ [AddingReviewer ?best e], calls := calls st @ (cs1 @ [?add])\<rparr>)"
      by (simp add: st1 logf_def)
    with cs1 show ?thesis
      by (intro exI [of _ kept] exI [of _ "[AddingReviewer ?best e]"] exI [of _ "cs1 @ [?add]"]) simp
  next
    case d
    then have "reviewerToken flagN remote old have f (kept, st)
        = (kept(?best := True), st\<lparr>errbuf := errbuf st @ [], calls := calls st @ (cs1 @ [?add])\<rparr>)"
      by (simp add: st1)
    with cs1 show ?thesis
      by (intro exI [of _ "kept(?best := True)"] exI [of _ "[]"] exI [of _ "cs1 @ [?add]"]) simp
  qed
qed

lemma tokens_append:
  "\<exists>kept' es cs. fold (reviewerToken flagN remote old have) fs (kept, st)
       = (kept', st\<lparr>errbuf := errbuf st @ es, calls := calls st @ cs\<rparr>)
     \<and> (\<forall>e. kept e \<longrightarrow> kept' e) \<and> list_all tokenNote es \<and> list_all lookupOrAdd cs"
proof (induction fs arbitrary: kept st)
  case Nil
  have "fold (reviewerToken flagN remote old have) [] (kept, st)
      = (kept, st\<lparr>errbuf := errbuf st @ [], calls := calls st @ []\<rparr>)" by simp
  then show ?case by (intro exI [of _ kept] exI [of _ "[]"]) simp
next
  case (Cons f fs)
  from reviewerToken_appends [of flagN remote old "have" f kept st]
  obtain k1 es1 cs1 where 1: "reviewerToken flagN remote old have f (kept, st)
       = (k1, st\<lparr>errbuf := errbuf st @ es1, calls := calls st @ cs1\<rparr>)"
    and p1: "\<forall>e. kept e \<longrightarrow> k1 e" "list_all tokenNote es1" "list_all lookupOrAdd cs1"
    by blast
  let ?st1 = "st\<lparr>errbuf := errbuf st @ es1, calls := calls st @ cs1\<rparr>"
  from Cons.IH [of k1 ?st1]
  obtain k2 es2 cs2 where 2: "fold (reviewerToken flagN remote old have) fs (k1, ?st1)
       = (k2, ?st1\<lparr>errbuf := errbuf ?st1 @ es2, calls := calls ?st1 @ cs2\<rparr>)"
    and p2: "\<forall>e. k1 e \<longrightarrow> k2 e" "list_all tokenNote es2" "list_all lookupOrAdd cs2"
    by blast
  have "fold (reviewerToken flagN remote old have) (f # fs) (kept, st)
      = (k2, st\<lparr>errbuf := errbuf st @ (es1 @ es2), calls := calls st @ (cs1 @ cs2)\<rparr>)"
    using 1 2 by simp
  with p1 p2 show ?case
    by (intro exI [of _ k2] exI [of _ "es1 @ es2"] exI [of _ "cs1 @ cs2"]) simp
qed

lemma deleteReviewers_appends:
  "\<exists>es. deleteReviewers flagN remote changeID kept rs st
       = st\<lparr>errbuf := errbuf st @ es,
            calls := calls st @ (if flagN then []
                       else map (DeleteReviewer changeID) (filter (\<lambda>e. \<not> kept e) (map Email rs)))\<rparr>
     \<and> list_all (removalNote kept) es
     \<and> (flagN \<longrightarrow> es = map DeleteReviewerDry (filter (\<lambda>e. \<not> kept e) (map Email rs)))"
proof (induction rs arbitrary: st)
  case Nil
  have "deleteReviewers flagN remote changeID kept [] st
      = st\<lparr>errbuf := errbuf st @ [], calls := calls st @ (if flagN then [] else [])\<rparr>" by simp
  then show ?case by (intro exI [of _ "[]"]) simp
next
  case (Cons r rs)
  let ?c = "DeleteReviewer changeID (Email r)"
  define st1 where "st1 =
       (if \<not> kept (Email r) then
          (if flagN then logf (DeleteReviewerDry (Email r)) st
           else
             let (rd, st1) = invoke remote ?c st
             in case rd of Failed e \<Rightarrow> logf (RemovingReviewer (Email r) e) st1 | _ \<Rightarrow> st1)
        else st)"
  have "\<exists>es1. st1 = st\<lparr>errbuf := errbuf st @ es1,
            calls := calls st @ (if flagN \<or> kept (Email r) then [] else [?c])\<rparr>
         \<and> list_all (removalNote kept) es1
         \<and> (flagN \<longrightarrow> es1 = (if kept (Email r) then [] else [DeleteReviewerDry (Email r)]))"
  proof (cases "kept (Email r)")
    case True
    then have "st1 = st\<lparr>errbuf := errbuf st @ [], calls := calls st @ (if flagN \<or> kept (Email r) then [] else [?c])\<rparr>"
      by (simp add: st1_def)
    with True show ?thesis by (intro exI [of _ "[]"]) simp
  next
    case nk: False
    show ?thesis
    proof (cases flagN)
      case True
      then have "st1 = st\<lparr>errbuf := errbuf st @ [DeleteReviewerDry (Email r)],
            calls := calls st @ (if flagN \<or> kept (Email r) then [] else [?c])\<rparr>"
        using nk by (simp add: st1_def logf_def)
      with nk True show ?thesis by (intro exI [of _ "[DeleteReviewerDry (Email r)]"]) simp
    next
      case False
      show ?thesis
      proof (cases "remote (calls st) ?c")
        case (Failed e)
        then have "st1 = st\<lparr>errbuf := errbuf st @ [RemovingReviewer (Email r) e],
            calls := calls st @ (if flagN \<or> kept (Email r) then [] else [?c])\<rparr>"
          using nk False by (simp add: st1_def logf_def invoke_def)
        with nk False show ?thesis by (intro exI [of _ "[RemovingReviewer (Email r) e]"]) simp
      next
        case (Suggested x)
        then have "st1 = st\<lparr>errbuf := errbuf st @ [],
            calls := calls st @ (if flagN \<or> kept (Email r) then [] else [?c])\<rparr>"
          using nk False by (simp add: st1_def logf_def invoke_def)
        with nk False show ?thesis by (intro exI [of _ "[]"]) simp
      next
        case Done
        then have "st1 = st\<lparr>errbuf := errbuf st @ [],
            calls := calls st @ (if flagN \<or> kept (Email r) then [] else [?c])\<rparr>"
          using nk False by (simp add: st1_def logf_def invoke_def)
        with nk False show ?thesis by (intro exI [of _ "[]"]) simp
      qed
    qed
  qed
  then obtain es1 where 1: "st1 = st\<lparr>errbuf := errbuf st @ es1,
            calls := calls st @ (if flagN \<or> kept (Email r) then [] else [?c])\<rparr>"
    and p1: "list_all (removalNote kept) es1"
      "flagN \<longrightarrow> es1 = (if kept (Email r) then [] else [DeleteReviewerDry (Email r)])"
    by blast
  from Cons.IH [of st1] obtain es2 where 2: "deleteReviewers flagN remote changeID kept rs st1
       = st1\<lparr>errbuf := errbuf st1 @ es2,
            calls := calls st1 @ (if flagN then []
                       else map (DeleteReviewer changeID) (filter (\<lambda>e. \<not> kept e) (map Email rs)))\<rparr>"
    and p2: "list_all (removalNote kept) es2"
      "flagN \<longrightarrow> es2 = map DeleteReviewerDry (filter (\<lambda>e. \<not> kept e) (map Email rs))"
    by blast
  have "deleteReviewers flagN remote changeID kept (r # rs) st
      = deleteReviewers flagN remote changeID kept rs st1"
    by (simp add: st1_def)
  also have "\<dots> = st\<lparr>errbuf := errbuf st @ (es1 @ es2),
            calls := calls st @ (if flagN then []
                       else map (DeleteReviewer changeID) (filter (\<lambda>e. \<not> kept e) (map Email (r # rs))))\<rparr>"
    unfolding 2 unfolding 1 by simp
  finally show ?case using p1 p2
    by (intro exI [of _ "es1 @ es2"]) auto
qed

text \<open>The best candidate a lookup resolves to, if it resolves.\<close>

definition resolved :: "reply \<Rightarrow> string option" where
  "resolved r =
     (if isFailed r \<or> suggested r = [] then None
      else if 1 < fst (pickBest (suggested r)) \<or> fst (pickBest (suggested r)) = 0 \<and> 1 < length (suggested r)
      then None
      else Some (snd (pickBest (suggested r))))"

lemma keptOf_appends:
  "\<exists>kept es cs. keptOf flagN remote old val st
       = (kept, st\<lparr>errbuf := errbuf st @ es, calls := calls st @ cs\<rparr>)
     \<and> kept (Email (Owner (ChangeInfo old))) \<and> list_all tokenNote es \<and> list_all lookupOrAdd cs"
proof -
  let ?k0 = "(\<lambda>k. False)(Email (Owner (ChangeInfo old)) := True)"
  from tokens_append [of flagN remote old "haveOf (Reviewers old)" "Fields val" ?k0 st]
  obtain kept es cs where "fold (reviewerToken flagN remote old (haveOf (Reviewers old))) (Fields val) (?k0, st)
       = (kept, st\<lparr>errbuf := errbuf st @ es, calls := calls st @ cs\<rparr>)"
    and "\<forall>e. ?k0 e \<longrightarrow> kept e" and "list_all tokenNote es" and "list_all lookupOrAdd cs"
    by blast
  then show ?thesis
    by (intro exI [of _ kept] exI [of _ es] exI [of _ cs]) (simp add: keptOf_def)
qed



subsection \<open>A Reviewers line as a plan\<close>

text \<open>What the reconciliation of a Reviewers line is said to do, written as a plan
  over the calls made so far. A token either names a known reviewer, or it is
  looked up and, when the lookup resolves it, added: the add is refused when the
  call fails, and in dry-run mode the add is only logged. A token that does not
  resolve is dropped with its diagnostic.\<close>

datatype outcome = Known string | Added string | Refused string string | Dropped diag

definition lookups :: "remote \<Rightarrow> string \<Rightarrow> string \<Rightarrow> call list \<Rightarrow> call list" where
  "lookups remote changeID f h =
     (if isFailed (remote h (SuggestReviewers changeID (reviewerQuery f) 10)) \<and> 3 \<le> length f
      then [SuggestReviewers changeID (reviewerQuery f) 10, SuggestReviewers changeID (reviewerQuery f) 10]
      else [SuggestReviewers changeID (reviewerQuery f) 10])"

definition answer :: "remote \<Rightarrow> string \<Rightarrow> string \<Rightarrow> call list \<Rightarrow> reply" where
  "answer remote changeID f h =
     (if isFailed (remote h (SuggestReviewers changeID (reviewerQuery f) 10)) \<and> 3 \<le> length f
      then remote (h @ [SuggestReviewers changeID (reviewerQuery f) 10])
             (SuggestReviewers changeID (reviewerQuery f) 10)
      else remote h (SuggestReviewers changeID (reviewerQuery f) 10))"

definition dropNote :: "string \<Rightarrow> reply \<Rightarrow> diag" where
  "dropNote f r =
     (if isFailed r \<or> suggested r = [] then UnknownReviewer f
      else AmbiguousReviewer f (emails (suggested r)))"

definition tokenStep :: "bool \<Rightarrow> remote \<Rightarrow> CL \<Rightarrow> call list \<Rightarrow> string \<Rightarrow> outcome \<times> call list" where
  "tokenStep flagN remote old h f =
     (if haveOf (Reviewers old) f \<noteq> [] then (Known (haveOf (Reviewers old) f), [])
      else
        (case resolved (answer remote (ChangeID (ChangeInfo old)) f h) of
           None \<Rightarrow>
             (Dropped (dropNote f (answer remote (ChangeID (ChangeInfo old)) f h)),
              lookups remote (ChangeID (ChangeInfo old)) f h)
         | Some best \<Rightarrow>
             if flagN then (Added best, lookups remote (ChangeID (ChangeInfo old)) f h)
             else
               ((case remote (h @ lookups remote (ChangeID (ChangeInfo old)) f h)
                        (AddReviewer (ChangeID (ChangeInfo old)) best) of
                   Failed e \<Rightarrow> Refused best e
                 | _ \<Rightarrow> Added best),
                lookups remote (ChangeID (ChangeInfo old)) f h
                  @ [AddReviewer (ChangeID (ChangeInfo old)) best])))"

text \<open>The tokens in order, each at the calls made before it.\<close>

fun tokenSteps :: "bool \<Rightarrow> remote \<Rightarrow> CL \<Rightarrow> call list \<Rightarrow> string list \<Rightarrow> (outcome \<times> call list) list" where
  "tokenSteps flagN remote old h [] = []"
| "tokenSteps flagN remote old h (f # fs) =
     tokenStep flagN remote old h f
       # tokenSteps flagN remote old (h @ snd (tokenStep flagN remote old h f)) fs"

fun keptEmail :: "outcome \<Rightarrow> string list" where
  "keptEmail (Known e) = [e]"
| "keptEmail (Added e) = [e]"
| "keptEmail (Refused e m) = []"
| "keptEmail (Dropped d) = []"

fun noteOf :: "bool \<Rightarrow> outcome \<Rightarrow> diag list" where
  "noteOf flagN (Known e) = []"
| "noteOf flagN (Added e) = (if flagN then [AddReviewerDry e] else [])"
| "noteOf flagN (Refused e m) = [AddingReviewer e m]"
| "noteOf flagN (Dropped d) = [d]"

text \<open>The kept set: the owner, and every token that is known or added. The
  removals: the known reviewers that are not kept, in their order.\<close>

definition keptEmails :: "CL \<Rightarrow> (outcome \<times> call list) list \<Rightarrow> string list" where
  "keptEmails old steps = Email (Owner (ChangeInfo old)) # concat (map (\<lambda>s. keptEmail (fst s)) steps)"

definition removed :: "CL \<Rightarrow> (outcome \<times> call list) list \<Rightarrow> string list" where
  "removed old steps = filter (\<lambda>e. e \<notin> set (keptEmails old steps)) (map Email (Reviewers old))"

definition reviewersCalls :: "bool \<Rightarrow> remote \<Rightarrow> CL \<Rightarrow> string \<Rightarrow> call list \<Rightarrow> call list" where
  "reviewersCalls flagN remote old val h =
     concat (map snd (tokenSteps flagN remote old h (Fields val)))
     @ (if flagN then []
        else map (DeleteReviewer (ChangeID (ChangeInfo old)))
               (removed old (tokenSteps flagN remote old h (Fields val))))"

lemma suggest_plan:
  "suggest remote changeID f st
     = (answer remote changeID f (calls st), st\<lparr>calls := calls st @ lookups remote changeID f (calls st)\<rparr>)"
  by (simp add: suggest_def invoke_def Let_def answer_def lookups_def)

lemma grow_none: "(\<lambda>e. kept e \<or> e \<in> set []) = kept"
  by simp

lemma grow_one: "(\<lambda>e. kept e \<or> e = b) = kept(b := True)"
  by (auto simp: fun_eq_iff)

lemma reviewerToken_step:
  fixes st :: "'a io_scheme"
  shows "reviewerToken flagN remote old (haveOf (Reviewers old)) f (kept, st)
     = ((\<lambda>e. kept e \<or> e \<in> set (keptEmail (fst (tokenStep flagN remote old (calls st) f)))),
        st\<lparr>errbuf := errbuf st @ noteOf flagN (fst (tokenStep flagN remote old (calls st) f)),
           calls := calls st @ snd (tokenStep flagN remote old (calls st) f)\<rparr>)"
proof (cases "haveOf (Reviewers old) f = []")
  case False
  then show ?thesis by (simp add: reviewerToken_known tokenStep_def grow_one)
next
  case True
  let ?id = "ChangeID (ChangeInfo old)"
  let ?r = "answer remote ?id f (calls st)"
  let ?st1 = "st\<lparr>calls := calls st @ lookups remote ?id f (calls st)\<rparr>"
  note tok = reviewerToken_cases [of "haveOf (Reviewers old)" f remote old st ?r ?st1 flagN kept,
      OF True suggest_plan]
  show ?thesis
  proof (cases "resolved ?r")
    case None
    then have "reviewerToken flagN remote old (haveOf (Reviewers old)) f (kept, st)
        = (kept, logf (dropNote f ?r) ?st1)"
      unfolding tok by (auto simp: resolved_def dropNote_def split: if_splits)
    with None True show ?thesis by (simp add: tokenStep_def logf_def)
  next
    case (Some best)
    then have ok: "(isFailed ?r \<or> suggested ?r = []) = False"
      "(1 < fst (pickBest (suggested ?r)) \<or> fst (pickBest (suggested ?r)) = 0 \<and> 1 < length (suggested ?r)) = False"
      and best: "snd (pickBest (suggested ?r)) = best"
      by (auto simp: resolved_def split: if_splits)
    note tok' = tok [unfolded ok if_False best]
    show ?thesis
    proof (cases flagN)
      case dry: True
      have "reviewerToken flagN remote old (haveOf (Reviewers old)) f (kept, st)
          = (kept(best := True), logf (AddReviewerDry best) ?st1)"
        unfolding tok' using dry by simp
      with Some True dry show ?thesis by (simp add: tokenStep_def logf_def grow_one)
    next
      case real: False
      show ?thesis
      proof (cases "remote (calls st @ lookups remote ?id f (calls st)) (AddReviewer ?id best)")
        case (Failed e)
        have "reviewerToken flagN remote old (haveOf (Reviewers old)) f (kept, st)
            = (kept, logf (AddingReviewer best e) (?st1\<lparr>calls := calls ?st1 @ [AddReviewer ?id best]\<rparr>))"
          unfolding tok' using real Failed by simp
        with Some True real Failed show ?thesis by (simp add: tokenStep_def logf_def)
      next
        case (Suggested x)
        have "reviewerToken flagN remote old (haveOf (Reviewers old)) f (kept, st)
            = (kept(best := True), ?st1\<lparr>calls := calls ?st1 @ [AddReviewer ?id best]\<rparr>)"
          unfolding tok' using real Suggested by simp
        with Some True real Suggested show ?thesis by (simp add: tokenStep_def grow_one)
      next
        case Done
        have "reviewerToken flagN remote old (haveOf (Reviewers old)) f (kept, st)
            = (kept(best := True), ?st1\<lparr>calls := calls ?st1 @ [AddReviewer ?id best]\<rparr>)"
          unfolding tok' using real Done by simp
        with Some True real Done show ?thesis by (simp add: tokenStep_def grow_one)
      qed
    qed
  qed
qed

lemma tokens_steps:
  fixes st :: "'a io_scheme"
  shows "fold (reviewerToken flagN remote old (haveOf (Reviewers old))) fs (kept, st)
     = ((\<lambda>e. kept e \<or> e \<in> set (concat (map (\<lambda>s. keptEmail (fst s)) (tokenSteps flagN remote old (calls st) fs)))),
        st\<lparr>errbuf := errbuf st @ concat (map (\<lambda>s. noteOf flagN (fst s)) (tokenSteps flagN remote old (calls st) fs)),
           calls := calls st @ concat (map snd (tokenSteps flagN remote old (calls st) fs))\<rparr>)"
proof (induction fs arbitrary: kept st)
  case Nil
  then show ?case by simp
next
  case (Cons f fs)
  show ?case
    unfolding fold_Cons comp_def reviewerToken_step Cons.IH
    by (auto simp: fun_eq_iff)
qed

lemma keptOf_steps:
  fixes st :: "'a io_scheme"
  shows "keptOf flagN remote old val st
     = ((\<lambda>e. e \<in> set (keptEmails old (tokenSteps flagN remote old (calls st) (Fields val)))),
        st\<lparr>errbuf := errbuf st @ concat (map (\<lambda>s. noteOf flagN (fst s))
                                      (tokenSteps flagN remote old (calls st) (Fields val))),
           calls := calls st @ concat (map snd (tokenSteps flagN remote old (calls st) (Fields val)))\<rparr>)"
  unfolding keptOf_def tokens_steps by (auto simp: keptEmails_def fun_eq_iff)

text \<open>The whole line: the steps of its tokens, then the removals.\<close>

lemma reviewersLine_plan:
  fixes st :: "'a io_scheme"
  shows "\<exists>es. reviewersLine flagN remote old val st
       = st\<lparr>errbuf := errbuf st
                @ concat (map (\<lambda>s. noteOf flagN (fst s)) (tokenSteps flagN remote old (calls st) (Fields val)))
                @ es,
            calls := calls st @ reviewersCalls flagN remote old val (calls st)\<rparr>
     \<and> list_all (removalNote (\<lambda>e. e \<in> set (keptEmails old (tokenSteps flagN remote old (calls st) (Fields val))))) es
     \<and> (flagN \<longrightarrow> es = map DeleteReviewerDry (removed old (tokenSteps flagN remote old (calls st) (Fields val))))"
proof -
  let ?steps = "tokenSteps flagN remote old (calls st) (Fields val)"
  let ?kept = "\<lambda>e. e \<in> set (keptEmails old ?steps)"
  let ?st1 = "st\<lparr>errbuf := errbuf st @ concat (map (\<lambda>s. noteOf flagN (fst s)) ?steps),
           calls := calls st @ concat (map snd ?steps)\<rparr>"
  from deleteReviewers_appends [of flagN remote "ChangeID (ChangeInfo old)" ?kept "Reviewers old" ?st1]
  obtain es where d: "deleteReviewers flagN remote (ChangeID (ChangeInfo old)) ?kept (Reviewers old) ?st1
       = ?st1\<lparr>errbuf := errbuf ?st1 @ es,
            calls := calls ?st1 @ (if flagN then []
                       else map (DeleteReviewer (ChangeID (ChangeInfo old)))
                              (filter (\<lambda>e. \<not> ?kept e) (map Email (Reviewers old))))\<rparr>"
    and q: "list_all (removalNote ?kept) es"
      "flagN \<longrightarrow> es = map DeleteReviewerDry (filter (\<lambda>e. \<not> ?kept e) (map Email (Reviewers old)))"
    by blast
  have "reviewersLine flagN remote old val st
       = st\<lparr>errbuf := errbuf st @ concat (map (\<lambda>s. noteOf flagN (fst s)) ?steps) @ es,
            calls := calls st @ reviewersCalls flagN remote old val (calls st)\<rparr>"
    unfolding reviewersLine_def keptOf_steps fst_conv snd_conv d
    by (simp add: reviewersCalls_def removed_def)
  with q show ?thesis unfolding removed_def by blast
qed










fun publish :: "call \<Rightarrow> bool" where
  "publish (SetReview i revID rv) = True"
| "publish c = False"

fun publishNote :: "diag \<Rightarrow> bool" where
  "publishNote (PublishReviewDry rv) = True"
| "publishNote (ErrorPublishing e) = True"
| "publishNote d = False"

lemma no_publish_call: "lookupOrAdd c \<or> removalOf kept c \<Longrightarrow> \<not> publish c"
  by (cases c) auto

lemma no_publish_note: "tokenNote d \<or> removalNote kept d \<Longrightarrow> \<not> publishNote d"
  by (cases d) auto

lemma reviewersLine_appends:
  fixes st :: "'a io_scheme"
  shows "\<exists>es cs. reviewersLine flagN remote old val st = st\<lparr>errbuf := errbuf st @ es, calls := calls st @ cs\<rparr>
     \<and> list_all (\<lambda>d. \<not> publishNote d) es \<and> list_all (\<lambda>c. \<not> publish c) cs"
proof -
  let ?id = "ChangeID (ChangeInfo old)"
  from keptOf_appends [of flagN remote old val st] obtain kept es1 cs1 where
    k: "keptOf flagN remote old val st = (kept, st\<lparr>errbuf := errbuf st @ es1, calls := calls st @ cs1\<rparr>)"
    and p: "list_all tokenNote es1" "list_all lookupOrAdd cs1"
    by blast
  let ?st1 = "st\<lparr>errbuf := errbuf st @ es1, calls := calls st @ cs1\<rparr>"
  let ?cs2 = "(if flagN then [] else map (DeleteReviewer ?id) (filter (\<lambda>e. \<not> kept e) (map Email (Reviewers old))))"
  from deleteReviewers_appends [of flagN remote ?id kept "Reviewers old" ?st1]
  obtain es2 where d: "deleteReviewers flagN remote ?id kept (Reviewers old) ?st1
       = ?st1\<lparr>errbuf := errbuf ?st1 @ es2, calls := calls ?st1 @ ?cs2\<rparr>"
    and q: "list_all (removalNote kept) es2"
    by blast
  have "reviewersLine flagN remote old val st
          = st\<lparr>errbuf := errbuf st @ (es1 @ es2), calls := calls st @ (cs1 @ ?cs2)\<rparr>"
    unfolding reviewersLine_def k fst_conv snd_conv d by simp
  moreover have "list_all (\<lambda>d. \<not> publishNote d) (es1 @ es2)"
    using p q no_publish_note [of _ kept] by (auto simp: list_all_iff)
  moreover have "list_all (\<lambda>c. \<not> publish c) (cs1 @ ?cs2)"
    using p no_publish_call [of _ kept] by (auto simp: list_all_iff)
  ultimately show ?thesis by blast
qed

text \<open>What a line of the summary may do to the state of the scan.\<close>

definition scanned :: "scan \<Rightarrow> scan \<Rightarrow> bool" where
  "scanned st st' \<longleftrightarrow>
     (parseError st \<longrightarrow> parseError st')
     \<and> (\<exists>es cs. errbuf st' = errbuf st @ es \<and> calls st' = calls st @ cs
          \<and> list_all (\<lambda>d. \<not> publishNote d) es \<and> list_all (\<lambda>c. \<not> publish c) cs)"

lemma scanned_refl: "scanned st st"
  by (auto simp: scanned_def)

lemma scanned_trans: "scanned a b \<Longrightarrow> scanned b c \<Longrightarrow> scanned a c"
  unfolding scanned_def by (elim conjE exE) (auto simp: list_all_iff)

lemma summaryLine_scanned:
  assumes "summaryLine flagN remote old l st = Some st'"
  shows "scanned st st'"
proof -
  let ?line = "TrimSpace l"
  let ?st = "st\<lparr>off := off st + length l\<rparr>"
  from reviewersLine_appends [of flagN remote old "lineValue ?line" ?st]
  obtain es cs where rl: "reviewersLine flagN remote old (lineValue ?line) ?st
        = ?st\<lparr>errbuf := errbuf ?st @ es, calls := calls ?st @ cs\<rparr>"
    and p: "list_all (\<lambda>d. \<not> publishNote d) es" "list_all (\<lambda>c. \<not> publish c) cs"
    by blast
  have r: "scanned st (reviewersLine flagN remote old (lineValue ?line) ?st)"
    unfolding rl scanned_def using p by simp
  have u: "scanned st ((logf (UnknownSummaryLine ?line) ?st)\<lparr>parseError := True\<rparr>)"
    unfolding scanned_def by (simp add: logf_def)
  have o: "scanned st ?st" and lab: "scanned st (?st\<lparr>labels := m\<rparr>)" for m
    unfolding scanned_def by simp_all
  from assms r u o lab show ?thesis
    by (auto simp: summaryLine_def Let_def split: if_splits)
qed

lemma scanLines_scanned: "scanned st (scanLines flagN remote old ls st)"
proof (induction ls arbitrary: st)
  case Nil
  then show ?case by (simp add: scanned_refl)
next
  case (Cons l ls)
  show ?case
  proof (cases "summaryLine flagN remote old l st")
    case None
    then show ?thesis by (simp add: scanned_refl)
  next
    case (Some st')
    from summaryLine_scanned [OF Some] Cons.IH [of st'] have "scanned st (scanLines flagN remote old ls st')"
      by (rule scanned_trans)
    with Some show ?thesis by simp
  qed
qed

lemma summaryLine_unknown:
  assumes "TrimSpace l \<noteq> []" and "\<not> HasPrefix (TrimSpace l) ''#''" and "CHR '':'' \<in> set (TrimSpace l)"
    and "lineKey (TrimSpace l) \<notin> {''Owner'', ''Reviewers''} \<union> fst ` set (Labels (ChangeInfo old))"
  shows "summaryLine flagN remote old l st
     = Some ((logf (UnknownSummaryLine (TrimSpace l)) (st\<lparr>off := off st + length l\<rparr>))\<lparr>parseError := True\<rparr>)"
  using assms by (simp add: summaryLine_def Let_def)

lemma summaryLine_continues:
  assumes "TrimSpace p = [] \<or> HasPrefix (TrimSpace p) ''#'' \<or> CHR '':'' \<in> set (TrimSpace p)"
  shows "\<exists>st'. summaryLine flagN remote old p st = Some st'"
  using assms by (auto simp: summaryLine_def Let_def)

lemma scanLines_reaches:
  assumes "\<forall>p\<in>set pre. TrimSpace p = [] \<or> HasPrefix (TrimSpace p) ''#'' \<or> CHR '':'' \<in> set (TrimSpace p)"
  shows "\<exists>st1. scanned st st1 \<and> scanLines flagN remote old (pre @ rest) st = scanLines flagN remote old rest st1"
  using assms
proof (induction pre arbitrary: st)
  case Nil
  then show ?case using scanned_refl by auto
next
  case (Cons p pre)
  from Cons.prems summaryLine_continues [of p flagN remote old st]
  obtain st' where s: "summaryLine flagN remote old p st = Some st'" by auto
  from Cons.IH [of st'] Cons.prems obtain st1 where
    "scanned st' st1" "scanLines flagN remote old (pre @ rest) st' = scanLines flagN remote old rest st1"
    by auto
  with s summaryLine_scanned [OF s] show ?case
    using scanned_trans by (intro exI [of _ st1]) auto
qed

subsection \<open>The calls of a scan\<close>

text \<open>What is attempted while the lines are scanned, as the amended claim has it:
  blank lines and comments are passed over, the scan ends at a line without a
  colon, a Reviewers line makes the calls of its reconciliation, at the calls made
  before it, and no other line makes a call.\<close>

fun attempted :: "bool \<Rightarrow> remote \<Rightarrow> CL \<Rightarrow> call list \<Rightarrow> string list \<Rightarrow> call list" where
  "attempted flagN remote old h [] = []"
| "attempted flagN remote old h (l # ls) =
     (if TrimSpace l = [] \<or> HasPrefix (TrimSpace l) ''#'' then attempted flagN remote old h ls
      else if CHR '':'' \<notin> set (TrimSpace l) then []
      else if lineKey (TrimSpace l) = ''Reviewers'' then
        reviewersCalls flagN remote old (lineValue (TrimSpace l)) h
        @ attempted flagN remote old (h @ reviewersCalls flagN remote old (lineValue (TrimSpace l)) h) ls
      else attempted flagN remote old h ls)"

lemma reviewersLine_calls:
  fixes st :: "'a io_scheme"
  shows "calls (reviewersLine flagN remote old val st) = calls st @ reviewersCalls flagN remote old val (calls st)"
  using reviewersLine_plan [of flagN remote old val st] by auto

lemma summaryLine_calls:
  assumes "summaryLine flagN remote old l st = Some st'"
  shows "calls st' = calls st @
     (if TrimSpace l \<noteq> [] \<and> \<not> HasPrefix (TrimSpace l) ''#'' \<and> lineKey (TrimSpace l) = ''Reviewers''
      then reviewersCalls flagN remote old (lineValue (TrimSpace l)) (calls st) else [])"
  using assms
  by (auto simp: summaryLine_def Let_def reviewersLine_calls logf_def split: if_splits)

lemma summaryLine_break:
  "summaryLine flagN remote old l st = None
     \<longleftrightarrow> TrimSpace l \<noteq> [] \<and> \<not> HasPrefix (TrimSpace l) ''#'' \<and> CHR '':'' \<notin> set (TrimSpace l)"
  by (auto simp: summaryLine_def Let_def)

lemma scanLines_calls:
  "calls (scanLines flagN remote old ls st) = calls st @ attempted flagN remote old (calls st) ls"
proof (induction ls arbitrary: st)
  case Nil
  then show ?case by simp
next
  case (Cons l ls)
  show ?case
  proof (cases "summaryLine flagN remote old l st")
    case None
    then show ?thesis using summaryLine_break [of flagN remote old l st] by simp
  next
    case (Some st')
    then have nb: "\<not> (TrimSpace l \<noteq> [] \<and> \<not> HasPrefix (TrimSpace l) ''#'' \<and> CHR '':'' \<notin> set (TrimSpace l))"
      using summaryLine_break [of flagN remote old l st] by simp
    from Some Cons.IH [of st'] summaryLine_calls [OF Some] nb show ?thesis
      by (auto simp: lineKey_def split: if_splits)
  qed
qed

text \<open>The scan of a document in which an unknown line is reached.\<close>

lemma scan_unknown:
  assumes split: "ls = pre @ l # post"
    and pre: "\<forall>p\<in>set pre. TrimSpace p = [] \<or> HasPrefix (TrimSpace p) ''#'' \<or> CHR '':'' \<in> set (TrimSpace p)"
    and l: "TrimSpace l \<noteq> []" "\<not> HasPrefix (TrimSpace l) ''#''" "CHR '':'' \<in> set (TrimSpace l)"
      "lineKey (TrimSpace l) \<notin> {''Owner'', ''Reviewers''} \<union> fst ` set (Labels (ChangeInfo old))"
  shows "parseError (scanLines flagN remote old ls st)
     \<and> UnknownSummaryLine (TrimSpace l) \<in> set (errbuf (scanLines flagN remote old ls st))"
proof -
  let ?final = "scanLines flagN remote old ls st"
  from scanLines_reaches [OF pre, where st = st and rest = "l # post" and flagN = flagN
      and remote = remote and old = old]
  obtain st1 where b: "?final = scanLines flagN remote old (l # post) st1"
    unfolding split by blast
  let ?marked = "(logf (UnknownSummaryLine (TrimSpace l)) (st1\<lparr>off := off st1 + length l\<rparr>))\<lparr>parseError := True\<rparr>"
  have c: "?final = scanLines flagN remote old post ?marked"
    unfolding b using summaryLine_unknown [OF l, where flagN = flagN and remote = remote and st = st1] by simp
  have "scanned ?marked ?final" unfolding c by (rule scanLines_scanned)
  then show ?thesis by (auto simp: scanned_def logf_def)
qed

lemma writeCL_stopped:
  assumes "parseError (scanLines flagN remote old (SplitAfterNL updated)
                      \<lparr>errbuf = [], calls = [], labels = Map.empty, parseError = False, off = 0\<rparr>)"
  shows "writeCL flagN remote old updated
     = \<lparr>errbuf = errbuf (scanLines flagN remote old (SplitAfterNL updated)
                      \<lparr>errbuf = [], calls = [], labels = Map.empty, parseError = False, off = 0\<rparr>),
        calls = attempted flagN remote old [] (SplitAfterNL updated)\<rparr>"
  using assms by (simp add: writeCL_def Let_def scanLines_calls)

text \<open>
  Claim C2, as amended. When the scan reaches a line with a colon whose key is
  not \<open>Owner\<close>, \<open>Reviewers\<close> or a label of the change, the review is not published:
  no \<open>SetReview\<close> call is made and no publish entry is logged in dry-run mode, and
  the unknown line is reported. The calls made are exactly those attempted by the
  scan of the whole document: every Reviewers line that is scanned, before or after
  the unknown line, makes its lookups, adds and removals.
\<close>

theorem unknown_line_stops_publish:
  assumes split: "SplitAfterNL updated = pre @ l # post"
    and pre: "\<forall>p\<in>set pre. TrimSpace p = [] \<or> HasPrefix (TrimSpace p) ''#'' \<or> CHR '':'' \<in> set (TrimSpace p)"
    and l: "TrimSpace l \<noteq> []" "\<not> HasPrefix (TrimSpace l) ''#''" "CHR '':'' \<in> set (TrimSpace l)"
      "lineKey (TrimSpace l) \<notin> {''Owner'', ''Reviewers''} \<union> fst ` set (Labels (ChangeInfo old))"
  shows "(\<forall>i revID rv. SetReview i revID rv \<notin> set (calls (writeCL flagN remote old updated)))
       \<and> (\<forall>rv. PublishReviewDry rv \<notin> set (errbuf (writeCL flagN remote old updated)))
       \<and> UnknownSummaryLine (TrimSpace l) \<in> set (errbuf (writeCL flagN remote old updated))
       \<and> calls (writeCL flagN remote old updated) = attempted flagN remote old [] (SplitAfterNL updated)"
proof -
  let ?init = "\<lparr>errbuf = [], calls = [], labels = Map.empty, parseError = False, off = 0\<rparr> :: scan"
  let ?final = "scanLines flagN remote old (SplitAfterNL updated) ?init"
  from scan_unknown [OF split pre l, of flagN remote ?init]
  have pe: "parseError ?final" and un: "UnknownSummaryLine (TrimSpace l) \<in> set (errbuf ?final)"
    by simp_all
  have "scanned ?init ?final" by (rule scanLines_scanned)
  then obtain es cs where "errbuf ?final = es" "calls ?final = cs"
    and np: "list_all (\<lambda>d. \<not> publishNote d) es" "list_all (\<lambda>c. \<not> publish c) cs"
    by (auto simp: scanned_def)
  then have nc: "SetReview i revID rv \<notin> set (calls ?final)" and nn: "PublishReviewDry rv \<notin> set (errbuf ?final)"
    for i revID rv
    by (auto simp: list_all_iff)
  have cf: "calls ?final = attempted flagN remote old [] (SplitAfterNL updated)"
    by (simp add: scanLines_calls)
  show ?thesis
    unfolding writeCL_stopped [OF pe] using nc nn un unfolding cf by simp
qed

text \<open>The strings of the examples, evaluated.\<close>

lemma summary_strings:
  "TrimSpace ''Bogus: 1\<newline>'' = ''Bogus: 1''" "lineKey ''Bogus: 1'' = ''Bogus''"
  "TrimSpace ''Reviewers: carol\<newline>'' = ''Reviewers: carol''"
  "lineKey ''Reviewers: carol'' = ''Reviewers''" "lineValue ''Reviewers: carol'' = ''carol''"
  "TrimSpace ''Reviewers: \<newline>'' = ''Reviewers:''"
  "lineKey ''Reviewers:'' = ''Reviewers''" "lineValue ''Reviewers:'' = []"
  "TrimSpace [] = []" "Fields [] = []" "Fields ''carol'' = [''carol'']"
  by code_simp+

lemma carol_calls:
  "reviewersCalls False exampleServer exampleCL ''carol'' h
     = [SuggestReviewers ''go~master~I1'' ''carol@'' 10, AddReviewer ''go~master~I1'' ''carol@x.org'',
        DeleteReviewer ''go~master~I1'' ''alice@x.org'']"
  by (simp add: reviewersCalls_def summary_strings tokenStep_def eval_reviewers resolved_def pickBest_def
      pickStep_def answer_def lookups_def exampleServer_def removed_def keptEmails_def)

lemma nobody_calls:
  "reviewersCalls False exampleServer exampleCL [] h = [DeleteReviewer ''go~master~I1'' ''alice@x.org'']"
  by (simp add: reviewersCalls_def summary_strings removed_def keptEmails_def exampleCL_def)

lemma attempted_after:
  "attempted False exampleServer exampleCL [] [''Bogus: 1\<newline>'', ''Reviewers: carol\<newline>'', []]
     = [SuggestReviewers ''go~master~I1'' ''carol@'' 10, AddReviewer ''go~master~I1'' ''carol@x.org'',
        DeleteReviewer ''go~master~I1'' ''alice@x.org'']"
  by (simp add: summary_strings carol_calls)

lemma attempted_before:
  "attempted False exampleServer exampleCL [] [''Reviewers: \<newline>'', ''Bogus: 1\<newline>'', []]
     = [DeleteReviewer ''go~master~I1'' ''alice@x.org'']"
  by (simp add: summary_strings nobody_calls)

lemma attempted_noted:
  "attempted False exampleServer exampleCL []
     [''# note\<newline>'', ''Bogus: 1\<newline>'', ''Reviewers: carol\<newline>'', []]
     = [SuggestReviewers ''go~master~I1'' ''carol@'' 10, AddReviewer ''go~master~I1'' ''carol@x.org'',
        DeleteReviewer ''go~master~I1'' ''alice@x.org'']"
proof -
  have "TrimSpace ''# note\<newline>'' = ''# note''" by code_simp
  then show ?thesis by (simp add: summary_strings carol_calls)
qed

text \<open>A comment, an unknown line and then a Reviewers line: carol is looked up and
  added and alice is removed, and nothing is published.\<close>

theorem unknown_line_stops_publish_witness:
  "UnknownSummaryLine ''Bogus: 1''
     \<in> set (errbuf (writeCL False exampleServer exampleCL ''# note\<newline>Bogus: 1\<newline>Reviewers: carol\<newline>''))
   \<and> calls (writeCL False exampleServer exampleCL ''# note\<newline>Bogus: 1\<newline>Reviewers: carol\<newline>'')
       = [SuggestReviewers ''go~master~I1'' ''carol@'' 10, AddReviewer ''go~master~I1'' ''carol@x.org'',
          DeleteReviewer ''go~master~I1'' ''alice@x.org'']"
proof -
  have s: "SplitAfterNL ''# note\<newline>Bogus: 1\<newline>Reviewers: carol\<newline>''
      = [''# note\<newline>''] @ ''Bogus: 1\<newline>'' # [''Reviewers: carol\<newline>'', []]"
    by simp
  have n: "TrimSpace ''# note\<newline>'' = ''# note''" by code_simp
  have "(\<forall>i revID rv. SetReview i revID rv
            \<notin> set (calls (writeCL False exampleServer exampleCL ''# note\<newline>Bogus: 1\<newline>Reviewers: carol\<newline>'')))
       \<and> (\<forall>rv. PublishReviewDry rv
            \<notin> set (errbuf (writeCL False exampleServer exampleCL ''# note\<newline>Bogus: 1\<newline>Reviewers: carol\<newline>'')))
       \<and> UnknownSummaryLine (TrimSpace ''Bogus: 1\<newline>'')
            \<in> set (errbuf (writeCL False exampleServer exampleCL ''# note\<newline>Bogus: 1\<newline>Reviewers: carol\<newline>''))
       \<and> calls (writeCL False exampleServer exampleCL ''# note\<newline>Bogus: 1\<newline>Reviewers: carol\<newline>'')
           = attempted False exampleServer exampleCL []
               (SplitAfterNL ''# note\<newline>Bogus: 1\<newline>Reviewers: carol\<newline>'')"
    by (rule unknown_line_stops_publish [OF s]) (simp_all add: summary_strings n exampleCL_def)
  then show ?thesis
    unfolding summary_strings(1) s append_Cons append_Nil attempted_noted by simp
qed

lemma placeholder_breaks:
  "summaryLine False exampleServer exampleCL ''<optional comment here>\<newline>'' st = None"
proof -
  have "TrimSpace ''<optional comment here>\<newline>'' = ''<optional comment here>''" by code_simp
  then show ?thesis by (simp add: summaryLine_def)
qed

lemma no_marker: "Index ''<optional comment here>\<newline>Bogus: 1\<newline>'' ''\<newline>Patch Set '' = None"
  by code_simp

lemma after_break:
  "calls (writeCL False exampleServer exampleCL ''<optional comment here>\<newline>Bogus: 1\<newline>'')
     = [SetReview ''go~master~I1'' ''r1''
          \<lparr>reviewMessage = [], reviewLabels = Map.empty, reviewDrafts = ''PUBLISH_ALL_REVISIONS''\<rparr>]"
proof -
  let ?init = "\<lparr>errbuf = [], calls = [], labels = Map.empty, parseError = False, off = 0\<rparr> :: scan"
  have "scanLines False exampleServer exampleCL
          (SplitAfterNL ''<optional comment here>\<newline>Bogus: 1\<newline>'') ?init = ?init"
    by (simp add: placeholder_breaks)
  then have "writeCL False exampleServer exampleCL ''<optional comment here>\<newline>Bogus: 1\<newline>''
      = snd (invoke exampleServer (SetReview (ChangeID (ChangeInfo exampleCL)) (CurrentRevision (ChangeInfo exampleCL))
           \<lparr>reviewMessage = [], reviewLabels = Map.empty, reviewDrafts = ''PUBLISH_ALL_REVISIONS''\<rparr>)
           \<lparr>errbuf = [], calls = []\<rparr>)"
    unfolding writeCL_def by (simp add: Let_def reviewComment_def no_marker invoke_def exampleServer_def)
  then show ?thesis by (simp add: invoke_def exampleCL_def)
qed

text \<open>With an unknown line after or before the Reviewers line, reviewers are
  still removed and added. And a line that looks like an unknown one, but stands
  after a line without a colon, where the scan has ended, is part of the message and
  stops nothing: the review is published.\<close>

theorem unknown_line_reviewers_counterexample:
  "calls (writeCL False exampleServer exampleCL ''Reviewers: \<newline>Bogus: 1\<newline>'')
     = [DeleteReviewer ''go~master~I1'' ''alice@x.org'']
   \<and> calls (writeCL False exampleServer exampleCL ''Bogus: 1\<newline>Reviewers: carol\<newline>'')
     = [SuggestReviewers ''go~master~I1'' ''carol@'' 10, AddReviewer ''go~master~I1'' ''carol@x.org'',
        DeleteReviewer ''go~master~I1'' ''alice@x.org'']
   \<and> calls (writeCL False exampleServer exampleCL ''<optional comment here>\<newline>Bogus: 1\<newline>'')
     = [SetReview ''go~master~I1'' ''r1''
          \<lparr>reviewMessage = [], reviewLabels = Map.empty, reviewDrafts = ''PUBLISH_ALL_REVISIONS''\<rparr>]"
proof -
  let ?init = "\<lparr>errbuf = [], calls = [], labels = Map.empty, parseError = False, off = 0\<rparr> :: scan"
  have s1: "SplitAfterNL ''Reviewers: \<newline>Bogus: 1\<newline>'' = [''Reviewers: \<newline>''] @ ''Bogus: 1\<newline>'' # [[]]"
    and s2: "SplitAfterNL ''Bogus: 1\<newline>Reviewers: carol\<newline>'' = [] @ ''Bogus: 1\<newline>'' # [''Reviewers: carol\<newline>'', []]"
    by simp_all
  have "parseError (scanLines False exampleServer exampleCL (SplitAfterNL ''Reviewers: \<newline>Bogus: 1\<newline>'') ?init)"
    using scan_unknown [OF s1, of exampleCL False exampleServer ?init]
    by (simp add: summary_strings exampleCL_def)
  from writeCL_stopped [OF this]
  have 1: "calls (writeCL False exampleServer exampleCL ''Reviewers: \<newline>Bogus: 1\<newline>'')
     = [DeleteReviewer ''go~master~I1'' ''alice@x.org'']"
    unfolding s1 append_Cons append_Nil attempted_before by simp
  have "parseError (scanLines False exampleServer exampleCL (SplitAfterNL ''Bogus: 1\<newline>Reviewers: carol\<newline>'') ?init)"
    using scan_unknown [OF s2, of exampleCL False exampleServer ?init]
    by (simp add: summary_strings exampleCL_def)
  from writeCL_stopped [OF this]
  have 2: "calls (writeCL False exampleServer exampleCL ''Bogus: 1\<newline>Reviewers: carol\<newline>'')
     = [SuggestReviewers ''go~master~I1'' ''carol@'' 10, AddReviewer ''go~master~I1'' ''carol@x.org'',
        DeleteReviewer ''go~master~I1'' ''alice@x.org'']"
    unfolding s2 append_Nil attempted_after by simp
  from 1 2 after_break show ?thesis by (intro conjI)
qed

section \<open>Reading a patch-set document (writePatchSet)\<close>

text \<open>\<open>DiffPrefix\<close> is U+22EE, three bytes in UTF-8.\<close>

definition DiffPrefix :: string where
  "DiffPrefix = [CHR 0xE2, CHR 0x8B, CHR 0xAE]"

text \<open>The two regular expressions, matched from the start of the line. Every
  repetition in them is followed by a character outside its class, so the longest
  run is the only one that can match. The result is the text left after the match.\<close>

definition many1 :: "(char \<Rightarrow> bool) \<Rightarrow> string \<Rightarrow> string option" where
  "many1 P s = (if takeWhile P s = [] then None else Some (dropWhile P s))"

definition one :: "(char \<Rightarrow> bool) \<Rightarrow> string \<Rightarrow> string option" where
  "one P s = (case s of [] \<Rightarrow> None | c # cs \<Rightarrow> if P c then Some cs else None)"

definition isUpper :: "char \<Rightarrow> bool" where
  "isUpper c \<longleftrightarrow> c \<in> set ''ABCDEFGHIJKLMNOPQRSTUVWXYZ''"

definition isLower :: "char \<Rightarrow> bool" where
  "isLower c \<longleftrightarrow> c \<in> set ''abcdefghijklmnopqrstuvwxyz''"

text \<open>\<open>^[^ ]+ \([A-Z][a-z]{2} +[0-9]+ [0-9]+:[0-9]{2}:[0-9]{2}\):\<close>\<close>

definition inlineCommentRE :: "string \<Rightarrow> string option" where
  "inlineCommentRE line =
     Option.bind (many1 (\<lambda>c. c \<noteq> CHR '' '') line) (\<lambda>s.
     Option.bind (one (\<lambda>c. c = CHR '' '') s) (\<lambda>s.
     Option.bind (one (\<lambda>c. c = CHR ''('') s) (\<lambda>s.
     Option.bind (one isUpper s) (\<lambda>s.
     Option.bind (one isLower s) (\<lambda>s.
     Option.bind (one isLower s) (\<lambda>s.
     Option.bind (many1 (\<lambda>c. c = CHR '' '') s) (\<lambda>s.
     Option.bind (many1 isDigit s) (\<lambda>s.
     Option.bind (one (\<lambda>c. c = CHR '' '') s) (\<lambda>s.
     Option.bind (many1 isDigit s) (\<lambda>s.
     Option.bind (one (\<lambda>c. c = CHR '':'') s) (\<lambda>s.
     Option.bind (one isDigit s) (\<lambda>s.
     Option.bind (one isDigit s) (\<lambda>s.
     Option.bind (one (\<lambda>c. c = CHR '':'') s) (\<lambda>s.
     Option.bind (one isDigit s) (\<lambda>s.
     Option.bind (one isDigit s) (\<lambda>s.
     Option.bind (one (\<lambda>c. c = CHR '')'') s) (\<lambda>s.
     one (\<lambda>c. c = CHR '':'') s)))))))))))))))))"

text \<open>\<open>m[0]\<close>: the text the expression matched.\<close>

definition inlineCommentHeader :: "string \<Rightarrow> string option" where
  "inlineCommentHeader line =
     map_option (\<lambda>rest. take (length line - length rest) line) (inlineCommentRE line)"

text \<open>\<open>^@@ -([0-9]+),([0-9]+) \+([0-9]+),([0-9]+) @@\<close>, giving \<open>m[1]\<close> and \<open>m[3]\<close>.\<close>

definition lit :: "string \<Rightarrow> string \<Rightarrow> string option" where
  "lit p s = (if HasPrefix s p then Some (drop (length p) s) else None)"

definition diffHunkRE :: "string \<Rightarrow> (string \<times> string) option" where
  "diffHunkRE line =
     Option.bind (lit ''@@ -'' line) (\<lambda>s1.
     Option.bind (many1 isDigit s1) (\<lambda>s2.
     Option.bind (lit '','' s2) (\<lambda>s3.
     Option.bind (many1 isDigit s3) (\<lambda>s4.
     Option.bind (lit '' +'' s4) (\<lambda>s5.
     Option.bind (many1 isDigit s5) (\<lambda>s6.
     Option.bind (lit '','' s6) (\<lambda>s7.
     Option.bind (many1 isDigit s7) (\<lambda>s8.
     Option.bind (lit '' @@'' s8) (\<lambda>s9.
     Some (takeWhile isDigit s1, takeWhile isDigit s5))))))))))"

text \<open>Go's \<open>int\<close>, taken to be 64 bits wide: the value of an \<open>int\<close> expression is
  wrapped into the range from \<open>-2^63\<close> to \<open>2^63 - 1\<close>.\<close>

definition int64 :: "int \<Rightarrow> int" where
  "int64 n = (n + 2 ^ 63) mod 2 ^ 64 - 2 ^ 63"

definition isCont :: "string \<Rightarrow> bool" where
  "isCont text \<longleftrightarrow> HasPrefix text [CHR 0x09] \<or> TrimSpace text = []"

definition isDraftLine :: "string \<Rightarrow> bool" where
  "isDraftLine line \<longleftrightarrow>
     \<not> HasPrefix line ''File '' \<and> \<not> HasPrefix line DiffPrefix \<and> inlineCommentRE line = None"

text \<open>\<open>shortTime\<close>: \<open>time.Stamp\<close> is \<open>Jan _2 15:04:05\<close>.\<close>

definition monthName :: "nat \<Rightarrow> string" where
  "monthName m = [''Jan'', ''Feb'', ''Mar'', ''Apr'', ''May'', ''Jun'', ''Jul'', ''Aug'', ''Sep'', ''Oct'',
     ''Nov'', ''Dec''] ! (m - 1)"

definition pad2 :: "char \<Rightarrow> nat \<Rightarrow> string" where
  "pad2 c n = (if n < 10 then c # natStr n [] else natStr n [])"

definition shortTime :: "TimeStamp \<Rightarrow> string" where
  "shortTime t = monthName (Month t) @ '' '' @ pad2 (CHR '' '') (Day t) @ '' ''
     @ pad2 (CHR ''0'') (Hour t) @ '':'' @ pad2 (CHR ''0'') (Minute t) @ '':'' @ pad2 (CHR ''0'') (Second t)"

definition commentHeader :: "CommentInfo \<Rightarrow> string" where
  "commentHeader c =
     (case Author c of None \<Rightarrow> ''draft xxx'' | Some a \<Rightarrow> shortEmail (Email a))
     @ '' ('' @ shortTime (Updated c) @ ''):''"

text \<open>\<open>findComment\<close>; the message it prints on a miss goes to standard error and is
  not part of the result.\<close>

definition findComment :: "CL \<Rightarrow> string \<Rightarrow> string \<Rightarrow> int \<Rightarrow> int \<Rightarrow> int \<Rightarrow> CommentInfo option" where
  "findComment cl hdr file sd lnOld lnNew =
     (let ln0 = (if sd < 0 then int64 (lnOld - 1) else int64 (lnNew - 1));
          ln = (if ln0 < 0 then 0 else ln0)
      in find (\<lambda>c. Line c = ln \<and> commentHeader c = hdr)
           (case map_of (Comments cl) file of None \<Rightarrow> [] | Some cs \<Rightarrow> cs))"

definition patchSetRevID :: "CL \<Rightarrow> int \<Rightarrow> string" where
  "patchSetRevID cl n =
     (case find (\<lambda>(revID, r). PatchSetNumber r = n) (Revisions (ChangeInfo cl)) of
        None \<Rightarrow> [] | Some (revID, r) \<Rightarrow> revID)"

text \<open>The variables of the loop over the lines. \<open>drafts\<close> maps the id of a known
  draft to its position in \<open>old.Drafts\<close>: the Go map holds pointers, and the last
  loop compares them.\<close>

record reader = io +
  drafts :: "string \<rightharpoonup> nat"
  inReplyTo :: "CommentInfo option"
  currentFile :: string
  side :: int
  top :: bool
  lineNew :: int
  lineOld :: int

text \<open>The condition of the loop \<open>for _, c0 := range drafts\<close>.\<close>

definition sameAnchor :: "CommentInfo \<Rightarrow> CommentInfo \<Rightarrow> bool" where
  "sameAnchor c0 c \<longleftrightarrow>
     Path c0 = Path c \<and> Side c0 = Side c \<and> Line c0 = Line c \<and> PatchSet c0 = PatchSet c
     \<and> InReplyTo c0 = InReplyTo c"

text \<open>The ids that loop finds: those of the known drafts still in the map that have
  the anchor of \<open>c\<close>, in the order of \<open>old.Drafts\<close>.\<close>

definition matching :: "CL \<Rightarrow> (string \<rightharpoonup> nat) \<Rightarrow> CommentInfo \<Rightarrow> string list" where
  "matching old m c =
     map (\<lambda>i. ID (Drafts old ! i))
       (filter (\<lambda>i. m (ID (Drafts old ! i)) = Some i \<and> sameAnchor (Drafts old ! i) c)
          [0 ..< length (Drafts old)])"

text \<open>The loop deletes every entry it finds and leaves in \<open>c.ID\<close> the id of the one
  it met last. Go ranges over a map in an order of its own; \<open>lastMet\<close> says which
  of the ids found is met last.\<close>

definition matchDraft ::
  "(string list \<Rightarrow> string) \<Rightarrow> CL \<Rightarrow> (string \<rightharpoonup> nat) \<Rightarrow> CommentInfo \<Rightarrow> CommentInfo \<times> (string \<rightharpoonup> nat)" where
  "matchDraft lastMet old m c =
     (let found = matching old m c
      in if found = [] then (c, m)
         else (c\<lparr>ID := lastMet found\<rparr>, (\<lambda>k. if k \<in> set found then None else m k)))"

text \<open>The end of the loop body: match the draft that was read, then log it or save
  it.\<close>

definition createCall :: "CL \<Rightarrow> CommentInfo \<Rightarrow> call" where
  "createCall old c =
     CreateDraft (ChangeID (ChangeInfo old)) (patchSetRevID old (PatchSet c)) (c\<lparr>PatchSet := 0\<rparr>)"

definition deleteCall :: "CL \<Rightarrow> CommentInfo \<Rightarrow> call" where
  "deleteCall old c = DeleteDraft (ChangeID (ChangeInfo old)) (patchSetRevID old (PatchSet c)) (ID c)"

definition saveDraft ::
  "bool \<Rightarrow> remote \<Rightarrow> (string list \<Rightarrow> string) \<Rightarrow> CL \<Rightarrow> CommentInfo \<Rightarrow> reader \<Rightarrow> reader" where
  "saveDraft flagN remote lastMet old c st =
     (let c1 = fst (matchDraft lastMet old (drafts st) c);
          st1 = st\<lparr>drafts := snd (matchDraft lastMet old (drafts st) c)\<rparr>
      in if flagN then logf (AddDraftDry c1) st1
         else
           let (r, st2) = invoke remote (createCall old c1) st1
           in case r of
                Failed e \<Rightarrow> logf (SavingDraft e (wrap (Message c1) [CHR 0x09])) st2
              | _ \<Rightarrow> st2)"

text \<open>The draft read at the current position; \<open>None\<close> is the nil dereference of
  \<open>old.BaseRev\<close>.\<close>

definition draftAt :: "CL \<Rightarrow> string \<Rightarrow> reader \<Rightarrow> CommentInfo option" where
  "draftAt old msg st =
     (let c = \<lparr>PatchSet = 0, ID = [], Path = currentFile st, Side = [], Line = 0, InReplyTo = [],
               Message = msg, Updated = \<lparr>Instant = 0, Month = 0, Day = 0, Hour = 0, Minute = 0, Second = 0\<rparr>,
               Author = None\<rparr>;
          reply = (\<lambda>c. case inReplyTo st of None \<Rightarrow> c | Some r \<Rightarrow> c\<lparr>InReplyTo := ID r\<rparr>)
      in if top st then Some (reply c)
         else if side st < 0 then
           (if Base old = [] then Some (reply (c\<lparr>Side := ''PARENT'', Line := int64 (lineOld st - 1)\<rparr>))
            else (case BaseRev old of
                    None \<Rightarrow> None
                  | Some b \<Rightarrow> Some (reply (c\<lparr>PatchSet := PatchSetNumber b, Line := int64 (lineOld st - 1)\<rparr>))))
         else Some (reply (c\<lparr>PatchSet := PatchSetNumber (PatchRev old), Line := int64 (lineNew st - 1)\<rparr>)))"

text \<open>A line that starts with \<open>DiffPrefix\<close>.\<close>

definition diffLine :: "string \<Rightarrow> reader \<Rightarrow> reader" where
  "diffLine line0 st0 =
     (let st = st0\<lparr>top := False, inReplyTo := None\<rparr>;
          line = drop (length DiffPrefix) line0
      in case diffHunkRE line of
           Some (m1, m3) \<Rightarrow> st\<lparr>lineOld := Atoi m1, lineNew := Atoi m3\<rparr>
         | None \<Rightarrow>
             if 1 \<le> lineNew st \<and> 1 \<le> lineOld st then
               (if HasPrefix line ''+'' then st\<lparr>lineNew := int64 (lineNew st + 1), side := 1\<rparr>
                else if HasPrefix line ''-'' then st\<lparr>lineOld := int64 (lineOld st + 1), side := - 1\<rparr>
                else st\<lparr>lineNew := int64 (lineNew st + 1), lineOld := int64 (lineOld st + 1), side := 0\<rparr>)
             else st)"

lemma length_dropWhile_less: "length (dropWhile P xs) < Suc (length xs)"
  by (simp add: length_dropWhile_le less_Suc_eq_le)

text \<open>The loop over the lines; \<open>first\<close> is \<open>i == 0\<close>. \<open>None\<close> is a panic.\<close>

function readLines ::
  "bool \<Rightarrow> remote \<Rightarrow> (string list \<Rightarrow> string) \<Rightarrow> CL \<Rightarrow> bool \<Rightarrow> string list \<Rightarrow> reader \<Rightarrow> reader option" where
  "readLines flagN remote lastMet old first [] st = Some st"
| "readLines flagN remote lastMet old first (line # rest) st =
     (if first \<and> HasPrefix line ''CL '' then readLines flagN remote lastMet old False rest st
      else if HasPrefix line ''File '' then
        readLines flagN remote lastMet old False rest
          (st\<lparr>currentFile := TrimSpace (drop 5 line), lineNew := - 1, lineOld := - 1, top := True\<rparr>)
      else if HasPrefix line DiffPrefix then
        readLines flagN remote lastMet old False rest (diffLine line st)
      else
        (case inlineCommentHeader line of
           Some hdr \<Rightarrow>
             readLines flagN remote lastMet old False (dropWhile isCont rest)
               (st\<lparr>inReplyTo := findComment old hdr (currentFile st) (side st) (lineOld st) (lineNew st)\<rparr>)
         | None \<Rightarrow>
             if TrimSpace line = [] then readLines flagN remote lastMet old False rest st
             else
               (let msg = concat (line # takeWhile isDraftLine rest);
                    rest' = dropWhile isDraftLine rest
                in if currentFile st = [] then
                     readLines flagN remote lastMet old False rest'
                       (logf (UnexpectedComment (wrap msg [CHR 0x09])) st)
                   else
                     (case draftAt old msg st of
                        None \<Rightarrow> None
                      | Some c \<Rightarrow>
                          readLines flagN remote lastMet old False rest'
                            (saveDraft flagN remote lastMet old c st)))))"
  by pat_completeness auto
termination
  by (relation "measure (\<lambda>(flagN, remote, lastMet, old, first, ls, st). length ls)")
    (simp_all add: length_dropWhile_less)

declare readLines.simps [simp del]

text \<open>The last loop: every known draft that is still in the map is deleted.\<close>

fun deleteDrafts :: "bool \<Rightarrow> remote \<Rightarrow> CL \<Rightarrow> nat list \<Rightarrow> reader \<Rightarrow> reader" where
  "deleteDrafts flagN remote old [] st = st"
| "deleteDrafts flagN remote old (i # is) st =
     deleteDrafts flagN remote old is
       (let c = Drafts old ! i in
        if drafts st (ID c) \<noteq> Some i then st
        else if flagN then logf (DeleteDraftDry c) st
        else
          let (r, st1) = invoke remote (deleteCall old c) st
          in case r of
               Failed e \<Rightarrow> logf (DeletingDraft e (wrap (Message c) [CHR 0x09])) st1
             | _ \<Rightarrow> st1)"

text \<open>The map \<open>drafts\<close> at the start: a later draft of \<open>old.Drafts\<close> replaces an earlier
  one with the same id.\<close>

definition draftsOf :: "CL \<Rightarrow> string \<rightharpoonup> nat" where
  "draftsOf old = fold (\<lambda>i m. m(ID (Drafts old ! i) \<mapsto> i)) [0 ..< length (Drafts old)] Map.empty"

text \<open>The variables before the first line.\<close>

definition start :: "CL \<Rightarrow> reader" where
  "start old = \<lparr>errbuf = [], calls = [], drafts = draftsOf old, inReplyTo = None, currentFile = [],
              side = 0, top = False, lineNew = - 1, lineOld = - 1\<rparr>"

definition writePatchSet :: "bool \<Rightarrow> remote \<Rightarrow> (string list \<Rightarrow> string) \<Rightarrow> CL \<Rightarrow> string \<Rightarrow> io option" where
  "writePatchSet flagN remote lastMet old updated =
     (case readLines flagN remote lastMet old True (SplitAfterNL updated) (start old) of
        None \<Rightarrow> None
      | Some st \<Rightarrow>
          (let st' = deleteDrafts flagN remote old [0 ..< length (Drafts old)] st
           in Some \<lparr>errbuf = errbuf st', calls = calls st'\<rparr>))"


section \<open>Drafts that are written back\<close>

text \<open>The drafts that the calls save and the ids that they delete.\<close>

definition draftOn :: "string \<Rightarrow> int \<Rightarrow> string \<Rightarrow> CommentInfo" where
  "draftOn k n msg =
     \<lparr>PatchSet = 1, ID = k, Path = ''a.go'', Side = [], Line = n, InReplyTo = [], Message = msg,
      Updated = \<lparr>Instant = 0, Month = 0, Day = 0, Hour = 0, Minute = 0, Second = 0\<rparr>, Author = None\<rparr>"

definition draftsCL :: "CommentInfo list \<Rightarrow> CL" where
  "draftsCL ds =
     exampleCL\<lparr>ChangeInfo := (ChangeInfo exampleCL)\<lparr>Revisions := [(''r1'', \<lparr>PatchSetNumber = 1, Files = []\<rparr>)]\<rparr>,
               Drafts := ds\<rparr>"

definition draftsDoc :: "string list \<Rightarrow> string" where
  "draftsDoc texts =
     concat (map (\<lambda>l. l @ [CHR 0x0A])
       ([''CL 1'', ''File a.go'', DiffPrefix @ ''@@ -1,3 +1,3 @@ '', DiffPrefix @ '' x''] @ texts))"

definition nl :: "string \<Rightarrow> string" where
  "nl s = s @ [CHR 0x0A]"

fun savedOf :: "call list \<Rightarrow> CommentInfo list" where
  "savedOf [] = []"
| "savedOf (CreateDraft i r c # cs) = c # savedOf cs"
| "savedOf (c # cs) = savedOf cs"

fun deletedOf :: "call list \<Rightarrow> string list" where
  "deletedOf [] = []"
| "deletedOf (DeleteDraft i r k # cs) = k # deletedOf cs"
| "deletedOf (c # cs) = deletedOf cs"

definition draftCalls :: "io option \<Rightarrow> (nat \<times> CommentInfo list \<times> string list) option" where
  "draftCalls = map_option (\<lambda>out. (length (calls out), savedOf (calls out), deletedOf (calls out)))"

text \<open>A draft as the server lists it: in a map keyed by the file, where \<open>Path\<close> is not
  set (gerrit.go, \<open>CommentInfo\<close>: "Not set if returned in a map where the key is the
  file path"), and as \<open>printMsg\<close> stores it in \<open>cl.Drafts\<close>.\<close>

definition listedDraft :: "string \<Rightarrow> int \<Rightarrow> string \<Rightarrow> CommentInfo" where
  "listedDraft k n msg = (draftOn k n msg)\<lparr>Path := []\<rparr>"

text \<open>
  Claim C6, at two inputs. First, one known draft of the file \<open>a.go\<close> on line 1, as
  the server lists it, and a document that holds its text unchanged on that line:
  the planner compares the empty \<open>Path\<close> of the known draft with the file of the
  parsed comment, so the tuples differ; it creates a new draft without id and
  deletes the known draft, where the claim has the id reused and the draft kept.
  Second, two known drafts that carry the tuple of the one parsed comment, \<open>Path\<close>
  included: the loop over the known drafts has no \<open>break\<close>, it takes both out of
  the map and keeps the id it met last, so the other known draft is neither updated
  nor deleted, in whichever order the map is ranged over.
\<close>

theorem draft_identity_lost:
  "draftCalls (writePatchSet False exampleServer last
     (draftsCL [listedDraft ''d1'' 1 ''one'']) (draftsDoc [''one'']))
   = Some (2, [(draftOn [] 1 (nl ''one''))\<lparr>PatchSet := 0\<rparr>], [''d1''])
   \<and> draftCalls (writePatchSet False exampleServer last
     (draftsCL [draftOn ''d1'' 1 ''one'', draftOn ''d2'' 1 ''two''])
     (draftsDoc [''one'', ''two'']))
   = Some (1, [(draftOn ''d2'' 1 (nl ''one'' @ nl ''two''))\<lparr>PatchSet := 0\<rparr>], [])
   \<and> draftCalls (writePatchSet False exampleServer hd
     (draftsCL [draftOn ''d1'' 1 ''one'', draftOn ''d2'' 1 ''two''])
     (draftsDoc [''one'', ''two'']))
   = Some (1, [(draftOn ''d1'' 1 (nl ''one'' @ nl ''two''))\<lparr>PatchSet := 0\<rparr>], [])"
  by code_simp

section \<open>Showing a patch set (show.go, showPatchSet)\<close>

text \<open>What the server answers to the four requests of \<open>showPatchSet\<close>, for the change
  that is shown: the change, the comments and the drafts of a revision, and the diff
  of a file of a revision against a base. \<open>None\<close> and \<open>Inl\<close> are errors. An association
  list stands for a Go map.\<close>

record Gerrit =
  GetChangeDetail :: "ChangeInfo option"
  ListRevisionComments :: "string \<Rightarrow> (string \<times> CommentInfo list) list option"
  ListRevisionDrafts :: "string \<Rightarrow> (string \<times> CommentInfo list) list option"
  GetDiff :: "string \<Rightarrow> string \<Rightarrow> string \<Rightarrow> string + DiffInfo"

definition IsDraft :: "CommentInfo \<Rightarrow> bool" where
  "IsDraft c \<longleftrightarrow> Author c = None"

text \<open>\<open>msgs[file]\<close>, and \<open>msgs[file] = append(msgs[file], list...)\<close> for every entry of
  another map.\<close>

definition at :: "(string \<times> CommentInfo list) list \<Rightarrow> string \<Rightarrow> CommentInfo list" where
  "at msgs file = (case map_of msgs file of None \<Rightarrow> [] | Some list \<Rightarrow> list)"

definition put :: "string \<Rightarrow> CommentInfo list \<Rightarrow> (string \<times> CommentInfo list) list \<Rightarrow> (string \<times> CommentInfo list) list" where
  "put file list msgs =
     (if file \<in> fst ` set msgs then map (\<lambda>(f, l). if f = file then (f, list) else (f, l)) msgs
      else msgs @ [(file, list)])"

definition appendAll ::
  "(string \<times> CommentInfo list) list \<Rightarrow> (string \<times> CommentInfo list) list \<Rightarrow> (string \<times> CommentInfo list) list" where
  "appendAll extra msgs = fold (\<lambda>(file, list) m. put file (at m file @ list) m) extra msgs"

text \<open>\<open>sort.Strings\<close> and \<open>sort.Sort(msgsByDisplay(...))\<close>, as insertion sorts. Go
  compares strings byte by byte. \<open>sort.Sort\<close> may order equal elements either way;
  the model keeps them in their order.\<close>

fun stringLess :: "string \<Rightarrow> string \<Rightarrow> bool" where
  "stringLess [] [] = False"
| "stringLess [] (y # ys) = True"
| "stringLess (x # xs) [] = False"
| "stringLess (x # xs) (y # ys) =
     ((of_char x :: nat) < of_char y \<or> (x = y \<and> stringLess xs ys))"

fun insertBy :: "('a \<Rightarrow> 'a \<Rightarrow> bool) \<Rightarrow> 'a \<Rightarrow> 'a list \<Rightarrow> 'a list" where
  "insertBy lt m [] = [m]"
| "insertBy lt m (x # xs) = (if lt m x then m # x # xs else x # insertBy lt m xs)"

definition sortBy :: "('a \<Rightarrow> 'a \<Rightarrow> bool) \<Rightarrow> 'a list \<Rightarrow> 'a list" where
  "sortBy lt xs = fold (insertBy lt) xs []"

definition msgsByDisplay :: "CommentInfo \<Rightarrow> CommentInfo \<Rightarrow> bool" where
  "msgsByDisplay x y =
     (if Line x \<noteq> Line y then Line x < Line y
      else if IsDraft x \<noteq> IsDraft y then IsDraft y
      else Instant (Updated x) < Instant (Updated y))"

text \<open>The writer \<open>w\<close>, the separator \<open>sep\<close> and \<open>cl.Drafts\<close>.\<close>

record view =
  out :: string
  sep :: string
  shown :: "CommentInfo list"

text \<open>What \<open>printMsg\<close> stores in a draft before it appends it to \<open>cl.Drafts\<close>.\<close>

definition shownDraft :: "int \<Rightarrow> int \<Rightarrow> bool \<Rightarrow> CommentInfo \<Rightarrow> CommentInfo" where
  "shownDraft patchNumber base isNew m =
     (if isNew then m\<lparr>Side := [], PatchSet := patchNumber\<rparr>
      else if base \<noteq> 0 then m\<lparr>Side := [], PatchSet := base\<rparr>
      else m\<lparr>PatchSet := 0, Side := ''PARENT''\<rparr>)"

definition printMsg :: "int \<Rightarrow> int \<Rightarrow> bool \<Rightarrow> CommentInfo \<Rightarrow> view \<Rightarrow> view" where
  "printMsg patchNumber base isNew m v =
     (if IsDraft m then
        v\<lparr>out := out v @ sep v @ Message m @ [CHR 0x0A, CHR 0x0A],
          shown := shown v @ [shownDraft patchNumber base isNew m], sep := []\<rparr>
      else
        v\<lparr>out := out v @ sep v @ commentHeader m @ [CHR 0x0A, CHR 0x0A]
                 @ [CHR 0x09] @ wrap (Message m) [CHR 0x09] @ [CHR 0x0A, CHR 0x0A],
          sep := []\<rparr>)"

definition printMsgs :: "int \<Rightarrow> int \<Rightarrow> bool \<Rightarrow> CommentInfo list \<Rightarrow> view \<Rightarrow> view" where
  "printMsgs patchNumber base isNew ms v = fold (printMsg patchNumber base isNew) ms v"

text \<open>The loop over the lines of the diff; \<open>oldMsgs\<close> and \<open>newMsgs\<close> are the comments
  not yet printed.\<close>

fun showLines ::
  "int \<Rightarrow> int \<Rightarrow> Line list \<Rightarrow> CommentInfo list \<Rightarrow> CommentInfo list \<Rightarrow> view
     \<Rightarrow> view \<times> CommentInfo list \<times> CommentInfo list" where
  "showLines patchNumber base [] oldMsgs newMsgs v = (v, oldMsgs, newMsgs)"
| "showLines patchNumber base (line # lines) oldMsgs newMsgs v =
     (let v1 = v\<lparr>out := out v @ DiffPrefix @ Prefix line @ Text line @ [CHR 0x0A], sep := [CHR 0x0A]\<rparr>;
          v2 = printMsgs patchNumber base False (takeWhile (\<lambda>m. Line m \<le> Old line) oldMsgs) v1;
          oldMsgs' = dropWhile (\<lambda>m. Line m \<le> Old line) oldMsgs;
          v3 = printMsgs patchNumber base True (takeWhile (\<lambda>m. Line m \<le> New line) newMsgs) v2;
          newMsgs' = dropWhile (\<lambda>m. Line m \<le> New line) newMsgs
      in showLines patchNumber base lines oldMsgs' newMsgs' v3)"

text \<open>The body of the loop over the files.\<close>

definition showFile ::
  "Gerrit \<Rightarrow> string \<Rightarrow> string \<Rightarrow> int \<Rightarrow> int \<Rightarrow> (string \<times> CommentInfo list) list \<Rightarrow> string \<Rightarrow> view \<Rightarrow> view" where
  "showFile server patchID baseID patchNumber base msgs file v0 =
     (let v = v0\<lparr>out := out v0 @ ''File '' @ file @ [CHR 0x0A, CHR 0x0A], sep := []\<rparr>;
          oldMsgs = sortBy msgsByDisplay (filter (\<lambda>m. Side m = ''PARENT'') (at msgs file));
          newMsgs = sortBy msgsByDisplay (filter (\<lambda>m. Side m \<noteq> ''PARENT'') (at msgs file))
      in case GetDiff server patchID baseID file of
           Inl err \<Rightarrow> v\<lparr>out := out v @ ''ERROR: '' @ err @ [CHR 0x0A]\<rparr>
         | Inr diff \<Rightarrow>
             (let v1 = printMsgs patchNumber base False (takeWhile (\<lambda>m. Line m = 0) oldMsgs) v;
                  oldMsgs1 = dropWhile (\<lambda>m. Line m = 0) oldMsgs;
                  v2 = printMsgs patchNumber base True (takeWhile (\<lambda>m. Line m = 0) newMsgs) v1;
                  newMsgs1 = dropWhile (\<lambda>m. Line m = 0) newMsgs;
                  (v3, oldMsgs2, newMsgs2) = showLines patchNumber base (formatUnifiedDiff diff) oldMsgs1 newMsgs1 v2;
                  v4 = printMsgs patchNumber base False oldMsgs2 v3;
                  v5 = printMsgs patchNumber base True newMsgs2 v4
              in v5\<lparr>out := out v5 @ sep v5\<rparr>))"

text \<open>\<open>cl.Comments\<close> is the map \<open>msgs\<close> itself, and its lists hold the pointers that
  \<open>printMsg\<close> writes through: a draft that has been printed is in \<open>cl.Comments\<close> as
  it is in \<open>cl.Drafts\<close>.\<close>

definition printed ::
  "Gerrit \<Rightarrow> string \<Rightarrow> string \<Rightarrow> int \<Rightarrow> int \<Rightarrow> string list \<Rightarrow> (string \<times> CommentInfo list) list
     \<Rightarrow> (string \<times> CommentInfo list) list" where
  "printed server patchID baseID patchNumber base files msgs =
     map (\<lambda>(file, list).
            (file,
             if file \<in> set files \<and> isl (GetDiff server patchID baseID file) = False then
               map (\<lambda>m. if IsDraft m then shownDraft patchNumber base (Side m \<noteq> ''PARENT'') m else m) list
             else list)) msgs"

text \<open>The revision with a given patch set number. Go meets the entries of the map
  \<open>ch.Revisions\<close> in an order of its own; patch set numbers are not repeated.\<close>

definition findRevision :: "ChangeInfo \<Rightarrow> int \<Rightarrow> (string \<times> RevisionInfo) option" where
  "findRevision ch n = find (\<lambda>(revID, r). PatchSetNumber r = n) (Revisions ch)"

text \<open>The comments to show, from the answers of the server.\<close>

definition baseMsgs ::
  "(string \<times> CommentInfo list) list \<Rightarrow> (string \<times> CommentInfo list) list \<Rightarrow> (string \<times> CommentInfo list) list
     \<Rightarrow> (string \<times> CommentInfo list) list" where
  "baseMsgs msgs msgsBase drafts2 =
     appendAll (map (\<lambda>(file, list). (file, map (\<lambda>m. m\<lparr>Side := ''PARENT''\<rparr>) list)) (appendAll drafts2 msgsBase))
       (map (\<lambda>(file, list). (file, filter (\<lambda>m. Side m \<noteq> ''PARENT'') list)) msgs)"

definition findBase :: "ChangeInfo \<Rightarrow> int \<Rightarrow> (string \<times> RevisionInfo option) option" where
  "findBase ch base =
     (if base \<noteq> 0 then map_option (\<lambda>(revID, rev). (revID, Some rev)) (findRevision ch base)
      else Some ([], None))"

definition fetchMsgs :: "Gerrit \<Rightarrow> string \<Rightarrow> string \<Rightarrow> (string \<times> CommentInfo list) list option" where
  "fetchMsgs server patchID baseID =
     (case ListRevisionComments server patchID of
        None \<Rightarrow> None
      | Some msgs0 \<Rightarrow>
     (case ListRevisionDrafts server patchID of
        None \<Rightarrow> None
      | Some drafts1 \<Rightarrow>
          if baseID \<noteq> [] then
            (case ListRevisionComments server baseID of
               None \<Rightarrow> None
             | Some msgsBase \<Rightarrow>
                 (case ListRevisionDrafts server patchID of
                    None \<Rightarrow> None
                  | Some drafts2 \<Rightarrow> Some (baseMsgs (appendAll drafts1 msgs0) msgsBase drafts2)))
          else Some (appendAll drafts1 msgs0)))"

text \<open>The first line of the document.\<close>

definition titleLine :: "int \<Rightarrow> int \<Rightarrow> int \<Rightarrow> string" where
  "titleLine ident base patch =
     ''CL '' @ itoa ident @ '' Patch Set '' @ itoa patch
     @ (if base \<noteq> 0 then '' (against base patch set '' @ itoa base @ '')'' else [])"

text \<open>The document and the \<open>CL\<close>, once the server has answered.\<close>

definition showFiles ::
  "Gerrit \<Rightarrow> int \<Rightarrow> int \<Rightarrow> int \<Rightarrow> string \<Rightarrow> RevisionInfo \<Rightarrow> string \<Rightarrow> (string \<times> CommentInfo list) list \<Rightarrow> view" where
  "showFiles server ident base patch patchID patchRev baseID msgs =
     fold (showFile server patchID baseID (PatchSetNumber patchRev) base msgs)
       (sortBy stringLess (Files patchRev))
       \<lparr>out = titleLine ident base patch @ [CHR 0x0A, CHR 0x0A], sep = [], shown = []\<rparr>"

definition render ::
  "Gerrit \<Rightarrow> int \<Rightarrow> int \<Rightarrow> int \<Rightarrow> ChangeInfo \<Rightarrow> string \<Rightarrow> RevisionInfo \<Rightarrow> string \<Rightarrow> RevisionInfo option
     \<Rightarrow> (string \<times> CommentInfo list) list \<Rightarrow> string \<times> CL" where
  "render server ident base patch ch patchID patchRev baseID baseRev msgs =
     (let v = showFiles server ident base patch patchID patchRev baseID msgs
      in (out v,
          \<lparr>ChangeInfo = ch, Reviewers = [],
           Comments = printed server patchID baseID (PatchSetNumber patchRev) base
                        (sortBy stringLess (Files patchRev)) msgs,
           PatchID = patchID, PatchRev = patchRev, Base = baseID, BaseRev = baseRev,
           Drafts = shown v\<rparr>))"

definition showPatchSet :: "Gerrit \<Rightarrow> int \<Rightarrow> int \<Rightarrow> int \<Rightarrow> (string \<times> CL) option" where
  "showPatchSet server ident base patch =
     (case GetChangeDetail server of
        None \<Rightarrow> None
      | Some ch \<Rightarrow>
     (case findRevision ch patch of
        None \<Rightarrow> None
      | Some (patchID, patchRev) \<Rightarrow>
     (case findBase ch base of
        None \<Rightarrow> None
      | Some (baseID, baseRev) \<Rightarrow>
     (case fetchMsgs server patchID baseID of
        None \<Rightarrow> None
      | Some msgs \<Rightarrow> Some (render server ident base patch ch patchID patchRev baseID baseRev msgs)))))"


section \<open>Showing a patch set and writing it back\<close>

text \<open>\<open>showPatchSet\<close>, and then \<open>writePatchSet\<close> on the document as it was shown.\<close>

definition roundTrip ::
  "Gerrit \<Rightarrow> int \<Rightarrow> int \<Rightarrow> int \<Rightarrow> bool \<Rightarrow> remote \<Rightarrow> (string list \<Rightarrow> string) \<Rightarrow> io option" where
  "roundTrip server ident base patch flagN remote lastMet =
     (case showPatchSet server ident base patch of
        None \<Rightarrow> None
      | Some (doc, cl) \<Rightarrow> writePatchSet flagN remote lastMet cl doc)"

text \<open>A change with one file and one patch set, on which the user has one draft, on
  line \<open>n\<close> of the file; the server lists the draft under its file, without \<open>Path\<close>.\<close>

definition oneDraft :: "int \<Rightarrow> Gerrit" where
  "oneDraft n =
     \<lparr>GetChangeDetail = Some ((ChangeInfo exampleCL)\<lparr>Revisions := [(''r1'', \<lparr>PatchSetNumber = 1, Files = [''a.go'']\<rparr>)]\<rparr>),
      ListRevisionComments = (\<lambda>rev. Some []),
      ListRevisionDrafts = (\<lambda>rev. Some [(''a.go'', [(listedDraft ''d1'' n ''note'')\<lparr>PatchSet := 0\<rparr>])]),
      GetDiff = (\<lambda>rev base file. Inr \<lparr>DiffHeader = [], Content = [\<lparr>A = [''x''], B = [''y''], AB = []\<rparr>]\<rparr>)\<rparr>"

text \<open>
  Claim C1, at a snapshot that holds a draft. The patch set is shown and the
  document is written back as it is, and yet two calls are made: the draft is
  created anew, without id and with two newlines more, and the known draft is
  deleted. This is so for a draft on line 1 and for a draft on the file as a whole
  (line 0).
\<close>

theorem draft_round_trip_recreated:
  "draftCalls (roundTrip (oneDraft 1) 1 0 1 False exampleServer last)
     = Some (2, [(draftOn [] 1 (nl (nl ''note'')))\<lparr>PatchSet := 0\<rparr>], [''d1''])
   \<and> draftCalls (roundTrip (oneDraft 0) 1 0 1 False exampleServer last)
     = Some (2, [(draftOn [] 0 (nl (nl ''note'')))\<lparr>PatchSet := 0\<rparr>], [''d1''])"
  by code_simp

end
